theory Spec2Isabelle
  imports
    Complex_Main
    "HOL-Library.Sublist"
    "HOL-Library.Char_ord"
    "HOL-Library.List_Lexorder"
    "HOL-Library.Product_Lexorder"
    "HOL-Library.Log_Nat"
begin

section \<open>Python strings\<close>

text \<open>
  A Python \<^verbatim>\<open>str\<close> is modelled as a \<^typ>\<open>string\<close>: one \<^typ>\<open>char\<close> per code
  point, for the code points below 256 (Latin-1). On that range \<^verbatim>\<open>str.isspace\<close>,
  \<^verbatim>\<open>str.lower\<close>, \<^verbatim>\<open>str.strip\<close> and \<^verbatim>\<open>str.split\<close> are as defined here.
\<close>

definition py_isspace :: "char \<Rightarrow> bool" where
  "py_isspace c =
     ((of_char c :: nat) \<in> {9, 10, 11, 12, 13, 28, 29, 30, 31, 32, 133, 160})"

definition char_lower :: "char \<Rightarrow> char" where
  "char_lower c =
     (let n = (of_char c :: nat)
      in if (65 \<le> n \<and> n \<le> 90) \<or> (192 \<le> n \<and> n \<le> 222 \<and> n \<noteq> 215)
         then char_of (n + 32) else c)"

text \<open>
  \<^verbatim>\<open>s.lower()\<close>. On Latin-1 it maps character by character and keeps the length
  of the string. Beyond Latin-1 it need not: the one code point U+0130 becomes two.
  No statement below relies on the length of a lower-cased string being that of the
  string.
\<close>

definition py_lower :: "string \<Rightarrow> string" where
  "py_lower s = map char_lower s"

text \<open>\<^verbatim>\<open>s.strip()\<close>: leading and trailing whitespace removed.\<close>

definition py_lstrip :: "string \<Rightarrow> string" where
  "py_lstrip s = dropWhile py_isspace s"

definition py_rstrip :: "string \<Rightarrow> string" where
  "py_rstrip s = rev (dropWhile py_isspace (rev s))"

definition py_strip :: "string \<Rightarrow> string" where
  "py_strip s = py_rstrip (py_lstrip s)"

text \<open>
  \<^verbatim>\<open>s.split()\<close> with no separator: skip a run of whitespace, take the run of
  non-whitespace that follows as a token, repeat; no empty token is produced.
\<close>

function py_split :: "string \<Rightarrow> string list" where
  "py_split s =
     (case dropWhile py_isspace s of
        [] \<Rightarrow> []
      | c # cs \<Rightarrow>
          takeWhile (\<lambda>x. \<not> py_isspace x) (c # cs)
            # py_split (dropWhile (\<lambda>x. \<not> py_isspace x) (c # cs)))"
  by pat_completeness auto
termination
proof (relation "measure length")
  show "wf (measure length)" by simp
next
  fix s :: string and c cs
  assume a: "dropWhile py_isspace s = c # cs"
  have "length (dropWhile (\<lambda>x. \<not> py_isspace x) (c # cs)) \<le> length cs"
    using a hd_dropWhile [of py_isspace s] length_dropWhile_le [of _ cs]
    by (auto simp del: length_dropWhile_le)
  moreover have "length (c # cs) \<le> length s"
    using a length_dropWhile_le [of py_isspace s] by simp
  ultimately show "(dropWhile (\<lambda>x. \<not> py_isspace x) (c # cs), s) \<in> measure length"
    by simp
qed

declare py_split.simps [simp del]

text \<open>
  \<^verbatim>\<open>sub in s\<close> for strings: \<^verbatim>\<open>sub\<close> occurs in \<^verbatim>\<open>s\<close> at some position.
  The scan tries each position from the left.
\<close>

fun py_contains :: "string \<Rightarrow> string \<Rightarrow> bool" where
  "py_contains sub [] = (sub = [])"
| "py_contains sub (c # cs) = (prefix sub (c # cs) \<or> py_contains sub cs)"

text \<open>
  \<^verbatim>\<open>s.split(sep)\<close> for a non-empty separator: cut at each occurrence of
  \<^verbatim>\<open>sep\<close>, found from the left and not overlapping; the piece after the last
  occurrence is always appended, so the result is never empty. \<open>cur\<close> holds the
  current piece, reversed. (Python raises \<^verbatim>\<open>ValueError\<close> on an empty separator;
  the program only ever passes \<^verbatim>\<open>' # '\<close>.)
\<close>

function split_sep_from :: "string \<Rightarrow> string \<Rightarrow> string \<Rightarrow> string list" where
  "split_sep_from sep cur [] = [rev cur]"
| "split_sep_from sep cur (c # cs) =
     (if sep \<noteq> [] \<and> prefix sep (c # cs)
      then rev cur # split_sep_from sep [] (drop (length sep) (c # cs))
      else split_sep_from sep (c # cur) cs)"
  by pat_completeness auto
termination
  by (relation "measure (\<lambda>(sep, cur, s). length s)") (auto simp: Suc_le_eq)

definition py_split_sep :: "string \<Rightarrow> string \<Rightarrow> string list" where
  "py_split_sep sep s = split_sep_from sep [] s"

section \<open>Python floats\<close>

text \<open>
  A Python \<^verbatim>\<open>float\<close> is an IEEE 754 binary64 number. A finite float is
  modelled by the rational it denotes, and every arithmetic operation computes the
  exact result and rounds it to the nearest binary64 number, ties to even
  (\<open>fl\<close>). The numbers of this program stay far below the overflow threshold, so
  no infinity or NaN arises.
\<close>

definition round_half_even :: "rat \<Rightarrow> int" where
  "round_half_even x =
     (let f = \<lfloor>x\<rfloor>; d = x - of_int f
      in if d < 1 / 2 then f
         else if 1 / 2 < d then f + 1
         else if even f then f else f + 1)"

text \<open>\<open>ilog2 x\<close> is \<open>\<lfloor>log\<^sub>2 x\<rfloor>\<close> for a positive rational.\<close>

definition ilog2 :: "rat \<Rightarrow> int" where
  "ilog2 x =
     (let (n, d) = quotient_of x; e = bitlen n - bitlen d
      in if power_int 2 e \<le> x then e else e - 1)"

definition fl :: "rat \<Rightarrow> rat" where
  "fl x =
     (if x = 0 then 0
      else let e = max (ilog2 \<bar>x\<bar> - 52) (- 1074)
           in of_int (round_half_even (x / power_int 2 e)) * power_int 2 e)"

definition fadd :: "rat \<Rightarrow> rat \<Rightarrow> rat" where
  "fadd x y = fl (x + y)"

definition fmul :: "rat \<Rightarrow> rat \<Rightarrow> rat" where
  "fmul x y = fl (x * y)"

definition fdiv :: "rat \<Rightarrow> rat \<Rightarrow> rat" where
  "fdiv x y = fl (x / y)"

text \<open>The conversion of an \<^verbatim>\<open>int\<close> to a \<^verbatim>\<open>float\<close>.\<close>

definition py_float :: "nat \<Rightarrow> rat" where
  "py_float n = fl (of_nat n)"

text \<open>\<^verbatim>\<open>m / n\<close> on two \<^verbatim>\<open>int\<close>s, \<open>n\<close> not zero: the exact quotient, rounded once.\<close>

definition int_truediv :: "nat \<Rightarrow> nat \<Rightarrow> rat" where
  "int_truediv m n = fl (of_nat m / of_nat n)"

text \<open>The literal \<^verbatim>\<open>0.3\<close>.\<close>

definition lit_0_3 :: rat where
  "lit_0_3 = fl (3 / 10)"

section \<open>difflib.SequenceMatcher\<close>

text \<open>
  \<^verbatim>\<open>SequenceMatcher(None, a, b)\<close> of the standard library, as the program calls
  it: \<^verbatim>\<open>isjunk\<close> is \<^verbatim>\<open>None\<close>, so the junk set is empty, and \<^verbatim>\<open>autojunk\<close> has its
  default \<^verbatim>\<open>True\<close>. The definitions follow CPython's \<^verbatim>\<open>Lib/difflib.py\<close>, method
  by method: \<^verbatim>\<open>__chain_b\<close>, \<^verbatim>\<open>find_longest_match\<close>, \<^verbatim>\<open>get_matching_blocks\<close>,
  \<^verbatim>\<open>ratio\<close> and \<^verbatim>\<open>_calculate_ratio\<close>.
\<close>

text \<open>
  \<^verbatim>\<open>__chain_b\<close>, first loop: \<^verbatim>\<open>b2j\<close> maps each element of \<open>b\<close> to the list of
  its indices, in increasing order.
\<close>

fun chain_b_index :: "string \<Rightarrow> nat \<Rightarrow> (char \<rightharpoonup> nat list) \<Rightarrow> (char \<rightharpoonup> nat list)" where
  "chain_b_index [] i b2j = b2j"
| "chain_b_index (elt # b) i b2j =
     chain_b_index b (Suc i)
       (b2j(elt \<mapsto> (case b2j elt of None \<Rightarrow> [] | Some indices \<Rightarrow> indices) @ [i]))"

text \<open>
  \<^verbatim>\<open>__chain_b\<close>, the purge of popular elements: when \<open>b\<close> has 200 elements or
  more, every element with more than \<^verbatim>\<open>n // 100 + 1\<close> occurrences is deleted from
  \<^verbatim>\<open>b2j\<close>.
\<close>

definition chain_b :: "string \<Rightarrow> (char \<rightharpoonup> nat list)" where
  "chain_b b =
     (let b2j = chain_b_index b 0 Map.empty; n = length b
      in if 200 \<le> n
         then (let ntest = n div 100 + 1
               in (\<lambda>elt. case b2j elt of
                            None \<Rightarrow> None
                          | Some idxs \<Rightarrow> if ntest < length idxs then None else Some idxs))
         else b2j)"

text \<open>
  \<^verbatim>\<open>find_longest_match\<close>, the inner loop over the indices \<open>j\<close> of \<^verbatim>\<open>a[i]\<close> in
  \<open>b\<close>. \<open>j2len\<close> is the row of the previous \<open>i\<close>; its keys are Python ints, so that
  the key \<open>j - 1\<close> of \<open>j = 0\<close> is \<open>-1\<close>, which is never present.
\<close>

fun flm_row ::
  "(int \<rightharpoonup> nat) \<Rightarrow> nat \<Rightarrow> nat \<Rightarrow> nat \<Rightarrow> nat list \<Rightarrow> (int \<rightharpoonup> nat) \<Rightarrow> nat \<times> nat \<times> nat
     \<Rightarrow> (int \<rightharpoonup> nat) \<times> (nat \<times> nat \<times> nat)" where
  "flm_row j2len i blo bhi [] newj2len best = (newj2len, best)"
| "flm_row j2len i blo bhi (j # js) newj2len (besti, bestj, bestsize) =
     (if j < blo then flm_row j2len i blo bhi js newj2len (besti, bestj, bestsize)
      else if bhi \<le> j then (newj2len, (besti, bestj, bestsize))
      else (let k = (case j2len (int j - 1) of None \<Rightarrow> 0 | Some v \<Rightarrow> v) + 1
            in flm_row j2len i blo bhi js (newj2len(int j \<mapsto> k))
                 (if bestsize < k then (i + 1 - k, j + 1 - k, k)
                  else (besti, bestj, bestsize))))"

text \<open>The outer loop, over \<^verbatim>\<open>range(alo, ahi)\<close>.\<close>

fun flm_rows ::
  "string \<Rightarrow> (char \<rightharpoonup> nat list) \<Rightarrow> nat \<Rightarrow> nat \<Rightarrow> nat list \<Rightarrow> (int \<rightharpoonup> nat)
     \<Rightarrow> nat \<times> nat \<times> nat \<Rightarrow> nat \<times> nat \<times> nat" where
  "flm_rows a b2j blo bhi [] j2len best = best"
| "flm_rows a b2j blo bhi (i # is) j2len best =
     (case flm_row j2len i blo bhi
             (case b2j (a ! i) of None \<Rightarrow> [] | Some js \<Rightarrow> js) Map.empty best of
        (newj2len, best') \<Rightarrow> flm_rows a b2j blo bhi is newj2len best')"

text \<open>
  The two loops that extend the best match by equal elements on each end. The junk
  set is empty, so \<^verbatim>\<open>not isbjunk(...)\<close> holds, and the two further loops, which
  extend by junk elements only, never run.
\<close>

function extend_left ::
  "string \<Rightarrow> string \<Rightarrow> nat \<Rightarrow> nat \<Rightarrow> nat \<times> nat \<times> nat \<Rightarrow> nat \<times> nat \<times> nat" where
  "extend_left a b alo blo (besti, bestj, bestsize) =
     (if alo < besti \<and> blo < bestj \<and> a ! (besti - 1) = b ! (bestj - 1)
      then extend_left a b alo blo (besti - 1, bestj - 1, bestsize + 1)
      else (besti, bestj, bestsize))"
  by pat_completeness auto
termination
  by (relation "measure (\<lambda>(a, b, alo, blo, besti, bestj, bestsize). besti)") auto

declare extend_left.simps [simp del]

function extend_right ::
  "string \<Rightarrow> string \<Rightarrow> nat \<Rightarrow> nat \<Rightarrow> nat \<times> nat \<times> nat \<Rightarrow> nat \<times> nat \<times> nat" where
  "extend_right a b ahi bhi (besti, bestj, bestsize) =
     (if besti + bestsize < ahi \<and> bestj + bestsize < bhi
         \<and> a ! (besti + bestsize) = b ! (bestj + bestsize)
      then extend_right a b ahi bhi (besti, bestj, bestsize + 1)
      else (besti, bestj, bestsize))"
  by pat_completeness auto
termination
  by (relation "measure (\<lambda>(a, b, ahi, bhi, besti, bestj, bestsize). ahi - (besti + bestsize))")
    auto

declare extend_right.simps [simp del]

definition find_longest_match ::
  "string \<Rightarrow> string \<Rightarrow> (char \<rightharpoonup> nat list) \<Rightarrow> nat \<Rightarrow> nat \<Rightarrow> nat \<Rightarrow> nat \<Rightarrow> nat \<times> nat \<times> nat" where
  "find_longest_match a b b2j alo ahi blo bhi =
     extend_right a b ahi bhi
       (extend_left a b alo blo
          (flm_rows a b2j blo bhi [alo..<ahi] Map.empty (alo, blo, 0)))"

text \<open>
  The block that \<^verbatim>\<open>find_longest_match\<close> returns lies in \<^verbatim>\<open>a[alo:ahi]\<close>; the
  loop of \<^verbatim>\<open>get_matching_blocks\<close> terminates for that reason.
\<close>

lemma flm_row_bounds:
  assumes "\<forall>j v. j2len j = Some v \<longrightarrow> v \<le> i - alo"
      and "\<forall>j v. new j = Some v \<longrightarrow> v \<le> i + 1 - alo"
      and "alo \<le> i" "i < ahi"
      and "alo \<le> fst best \<and> fst best + snd (snd best) \<le> ahi"
      and "flm_row j2len i blo bhi js new best = (new', best')"
  shows "(\<forall>j v. new' j = Some v \<longrightarrow> v \<le> i + 1 - alo)
         \<and> alo \<le> fst best' \<and> fst best' + snd (snd best') \<le> ahi"
  using assms
proof (induction j2len i blo bhi js new best rule: flm_row.induct)
  case (1 j2len i blo bhi newj2len best)
  then show ?case by simp
next
  case (2 j2len i blo bhi j js newj2len besti bestj bestsize)
  show ?case
  proof (cases "j < blo")
    case True
    with "2.prems" show ?thesis by (intro "2.IH"(1)) auto
  next
    case nlo: False
    show ?thesis
    proof (cases "bhi \<le> j")
      case True
      with nlo "2.prems" show ?thesis by auto
    next
      case False
      define k where "k = (case j2len (int j - 1) of None \<Rightarrow> 0 | Some v \<Rightarrow> v) + 1"
      have kb: "k \<le> i + 1 - alo"
      proof (cases "j2len (int j - 1)")
        case None
        then show ?thesis using "2.prems"(3) by (simp add: k_def)
      next
        case (Some v)
        then have "v \<le> i - alo" using "2.prems"(1) by blast
        then show ?thesis using Some "2.prems"(3) by (simp add: k_def)
      qed
      have k1: "1 \<le> k" by (simp add: k_def)
      show ?thesis
      proof (rule "2.IH"(2) [OF nlo False k_def "2.prems"(1)])
        show "\<forall>ja v. (newj2len(int j \<mapsto> k)) ja = Some v \<longrightarrow> v \<le> i + 1 - alo"
          using "2.prems"(2) kb by auto
        show "alo \<le> i" "i < ahi" by fact+
        show "alo \<le> fst (if bestsize < k then (i + 1 - k, j + 1 - k, k) else (besti, bestj, bestsize)) \<and>
              fst (if bestsize < k then (i + 1 - k, j + 1 - k, k) else (besti, bestj, bestsize)) +
              snd (snd (if bestsize < k then (i + 1 - k, j + 1 - k, k) else (besti, bestj, bestsize))) \<le> ahi"
          using "2.prems"(3,4,5) kb k1 by auto
        show "flm_row j2len i blo bhi js (newj2len(int j \<mapsto> k))
              (if bestsize < k then (i + 1 - k, j + 1 - k, k) else (besti, bestj, bestsize)) = (new', best')"
          using "2.prems"(6) nlo False by (auto simp: k_def Let_def split: if_splits)
      qed
    qed
  qed
qed

lemma flm_rows_bounds:
  assumes "\<forall>j v. j2len j = Some v \<longrightarrow> v \<le> i0 - alo"
      and "alo \<le> i0" "i0 \<le> ahi"
      and "alo \<le> fst best \<and> fst best + snd (snd best) \<le> ahi"
  shows "alo \<le> fst (flm_rows a b2j blo bhi [i0..<ahi] j2len best)
       \<and> fst (flm_rows a b2j blo bhi [i0..<ahi] j2len best)
           + snd (snd (flm_rows a b2j blo bhi [i0..<ahi] j2len best)) \<le> ahi"
  using assms
proof (induction "ahi - i0" arbitrary: i0 j2len best)
  case 0
  then show ?case by simp
next
  case (Suc n)
  then have lt: "i0 < ahi" by simp
  obtain new' best' where r: "flm_row j2len i0 blo bhi
             (case b2j (a ! i0) of None \<Rightarrow> [] | Some js \<Rightarrow> js) Map.empty best = (new', best')"
    by (cases "flm_row j2len i0 blo bhi
             (case b2j (a ! i0) of None \<Rightarrow> [] | Some js \<Rightarrow> js) Map.empty best") auto
  have rb: "(\<forall>j v. new' j = Some v \<longrightarrow> v \<le> i0 + 1 - alo)
         \<and> alo \<le> fst best' \<and> fst best' + snd (snd best') \<le> ahi"
    by (rule flm_row_bounds [OF Suc.prems(1) _ Suc.prems(2) lt Suc.prems(4) r]) simp
  have "alo \<le> fst (flm_rows a b2j blo bhi [Suc i0..<ahi] new' best')
       \<and> fst (flm_rows a b2j blo bhi [Suc i0..<ahi] new' best')
           + snd (snd (flm_rows a b2j blo bhi [Suc i0..<ahi] new' best')) \<le> ahi"
    using Suc.hyps(2) rb Suc.prems(2) lt
    by (intro Suc.hyps(1)) auto
  then show ?case
    using lt r by (simp add: upt_conv_Cons)
qed

lemma extend_left_bounds:
  "alo \<le> fst best \<Longrightarrow> fst best + snd (snd best) \<le> ahi \<Longrightarrow>
   alo \<le> fst (extend_left a b alo blo best)
   \<and> fst (extend_left a b alo blo best) + snd (snd (extend_left a b alo blo best)) \<le> ahi"
proof (induction a b alo blo best rule: extend_left.induct)
  case (1 a b alo blo besti bestj bestsize)
  show ?case
    using 1 by (subst (1 2 3) extend_left.simps) (auto split: if_splits)
qed

lemma extend_right_bounds:
  "alo \<le> fst best \<Longrightarrow> fst best + snd (snd best) \<le> ahi \<Longrightarrow>
   alo \<le> fst (extend_right a b ahi bhi best)
   \<and> fst (extend_right a b ahi bhi best) + snd (snd (extend_right a b ahi bhi best)) \<le> ahi"
proof (induction a b ahi bhi best rule: extend_right.induct)
  case (1 a b ahi bhi besti bestj bestsize)
  show ?case
    using 1 by (subst (1 2 3) extend_right.simps) (auto split: if_splits)
qed

lemma find_longest_match_bounds:
  assumes "find_longest_match a b b2j alo ahi blo bhi = (i, j, k)" and "k \<noteq> 0"
  shows "alo \<le> i \<and> i + k \<le> ahi"
proof (cases "alo \<le> ahi")
  case True
  let ?r = "flm_rows a b2j blo bhi [alo..<ahi] Map.empty (alo, blo, 0)"
  have "alo \<le> fst ?r \<and> fst ?r + snd (snd ?r) \<le> ahi"
    using True by (intro flm_rows_bounds) auto
  then have "alo \<le> fst (extend_left a b alo blo ?r)
     \<and> fst (extend_left a b alo blo ?r) + snd (snd (extend_left a b alo blo ?r)) \<le> ahi"
    using extend_left_bounds by blast
  then have "alo \<le> fst (find_longest_match a b b2j alo ahi blo bhi)
     \<and> fst (find_longest_match a b b2j alo ahi blo bhi)
        + snd (snd (find_longest_match a b b2j alo ahi blo bhi)) \<le> ahi"
    unfolding find_longest_match_def using extend_right_bounds by blast
  with assms show ?thesis by simp
next
  case False
  then have "find_longest_match a b b2j alo ahi blo bhi = (alo, blo, 0)"
    by (simp add: find_longest_match_def extend_left.simps extend_right.simps)
  with assms show ?thesis by simp
qed

text \<open>
  \<^verbatim>\<open>get_matching_blocks\<close>, the loop over the work list. \<open>queue\<close> is the Python
  list with its last element first: \<^verbatim>\<open>queue.pop()\<close> takes the head and
  \<^verbatim>\<open>queue.append\<close> puts a new head.
\<close>

function gmb_loop ::
  "string \<Rightarrow> string \<Rightarrow> (char \<rightharpoonup> nat list) \<Rightarrow> (nat \<times> nat \<times> nat \<times> nat) list
     \<Rightarrow> (nat \<times> nat \<times> nat) list \<Rightarrow> (nat \<times> nat \<times> nat) list" where
  "gmb_loop a b b2j [] matching_blocks = matching_blocks"
| "gmb_loop a b b2j ((alo, ahi, blo, bhi) # queue) matching_blocks =
     (case find_longest_match a b b2j alo ahi blo bhi of
        (i, j, k) \<Rightarrow>
          if k \<noteq> 0
          then gmb_loop a b b2j
                 ((if i + k < ahi \<and> j + k < bhi then [(i + k, ahi, j + k, bhi)] else [])
                  @ (if alo < i \<and> blo < j then [(alo, i, blo, j)] else [])
                  @ queue)
                 (matching_blocks @ [(i, j, k)])
          else gmb_loop a b b2j queue matching_blocks)"
  by pat_completeness auto
termination
  apply (relation "measure (\<lambda>(a, b, b2j, queue, mbs).
          sum_list (map (\<lambda>(alo, ahi, blo, bhi). 2 * (ahi - alo) + 1) queue))")
    apply simp
   apply (auto dest: find_longest_match_bounds find_longest_match_bounds [OF sym])
  done

declare gmb_loop.simps [simp del]

text \<open>
  \<^verbatim>\<open>get_matching_blocks\<close>, the loop that collapses adjacent blocks of the sorted
  list; \<open>(i1, j1, k1)\<close> is the block to compare against.
\<close>

fun collapse_adjacent ::
  "nat \<times> nat \<times> nat \<Rightarrow> (nat \<times> nat \<times> nat) list \<Rightarrow> (nat \<times> nat \<times> nat) list
     \<Rightarrow> (nat \<times> nat \<times> nat) list" where
  "collapse_adjacent (i1, j1, k1) [] non_adjacent =
     (if k1 \<noteq> 0 then non_adjacent @ [(i1, j1, k1)] else non_adjacent)"
| "collapse_adjacent (i1, j1, k1) ((i2, j2, k2) # rest) non_adjacent =
     (if i1 + k1 = i2 \<and> j1 + k1 = j2
      then collapse_adjacent (i1, j1, k1 + k2) rest non_adjacent
      else collapse_adjacent (i2, j2, k2) rest
             (if k1 \<noteq> 0 then non_adjacent @ [(i1, j1, k1)] else non_adjacent))"

definition get_matching_blocks :: "string \<Rightarrow> string \<Rightarrow> (nat \<times> nat \<times> nat) list" where
  "get_matching_blocks a b =
     (let la = length a; lb = length b;
          matching_blocks = sort (gmb_loop a b (chain_b b) [(0, la, 0, lb)] [])
      in collapse_adjacent (0, 0, 0) matching_blocks [] @ [(la, lb, 0)])"

text \<open>\<^verbatim>\<open>_calculate_ratio\<close>: \<^verbatim>\<open>2.0 * matches / length\<close>, and 1.0 for length 0.\<close>

definition calculate_ratio :: "nat \<Rightarrow> nat \<Rightarrow> rat" where
  "calculate_ratio matches len =
     (if len \<noteq> 0 then fdiv (fmul 2 (py_float matches)) (py_float len) else 1)"

text \<open>\<^verbatim>\<open>SequenceMatcher(None, a, b).ratio()\<close>\<close>

definition ratio :: "string \<Rightarrow> string \<Rightarrow> rat" where
  "ratio a b =
     (let matches = sum_list (map (\<lambda>(i, j, k). k) (get_matching_blocks a b))
      in calculate_ratio matches (length a + length b))"

section \<open>The corpus\<close>

text \<open>
  One line of the metadata file, as \<^verbatim>\<open>json.loads\<close> returns it: a dict with
  these keys. The duration is a finite \<^verbatim>\<open>float\<close>, kept as the rational it denotes;
  a duration written as a JSON integer, or as an infinity or NaN, is outside this
  type.
\<close>

record sample =
  utterance_name :: string
  words :: string
  script_title :: string
  sentence_estimated_duration :: rat
  phone_sequence :: string
  transcription :: string

subsection \<open>find_sample_by_id\<close>

fun find_sample_by_id :: "sample list \<Rightarrow> string \<Rightarrow> sample option" where
  "find_sample_by_id [] name = None"
| "find_sample_by_id (s # ss) name =
     (if utterance_name s = name then Some s else find_sample_by_id ss name)"

subsection \<open>find_closest_match\<close>

text \<open>
  The word-overlap of lines 67 to 69: both strings are split on whitespace into sets
  of words; the share of the query's words that the sample has, and the \<^verbatim>\<open>int\<close> 0
  when the query has no word.
\<close>

definition word_overlap :: "string \<Rightarrow> string \<Rightarrow> rat" where
  "word_overlap text sample_text =
     (let text_words = set (py_split text);
          sample_words = set (py_split sample_text)
      in if text_words \<noteq> {}
         then int_truediv (card (text_words \<inter> sample_words)) (card text_words)
         else 0)"

text \<open>
  The score of one sample, lines 64 to 70: the ratio of the sequence matcher, plus
  \<^verbatim>\<open>word_overlap * 0.3\<close>.
\<close>

definition match_score :: "string \<Rightarrow> string \<Rightarrow> rat" where
  "match_score text sample_text =
     fadd (ratio text sample_text) (fmul (word_overlap text sample_text) lit_0_3)"

text \<open>
  The loop of \<^verbatim>\<open>find_closest_match\<close> with its state \<open>best_match\<close> and
  \<open>best_score\<close>, and the \<^verbatim>\<open>return\<close> after it. \<open>text\<close> is the query, already
  lower-cased and stripped.
\<close>

fun fcm_loop :: "string \<Rightarrow> sample list \<Rightarrow> sample option \<Rightarrow> rat \<Rightarrow> sample option" where
  "fcm_loop text [] best_match best_score =
     (if lit_0_3 < best_score then best_match else None)"
| "fcm_loop text (sample # samples) best_match best_score =
     (let sample_text = py_lower (words sample)
      in if sample_text = text then Some sample
         else (let score = match_score text sample_text
               in if best_score < score
                  then fcm_loop text samples (Some sample) score
                  else fcm_loop text samples best_match best_score))"

definition find_closest_match :: "sample list \<Rightarrow> string \<Rightarrow> sample option" where
  "find_closest_match samples text = fcm_loop (py_strip (py_lower text)) samples None 0"

subsection \<open>get_stats\<close>

datatype py_error = ZeroDivisionError

text \<open>
  \<^verbatim>\<open>x / n\<close> for an \<^verbatim>\<open>int\<close> \<open>n\<close> and a finite \<^verbatim>\<open>float\<close> \<open>x\<close>, or the
  \<^verbatim>\<open>int\<close> 0 that \<^verbatim>\<open>sum\<close> gives for no number. It raises
  \<^verbatim>\<open>ZeroDivisionError\<close> when \<open>n\<close> is 0, whatever \<open>x\<close> is; with a float \<open>x\<close> and
  \<open>n\<close> not 0 it raises nothing.
\<close>

definition py_truediv :: "rat \<Rightarrow> nat \<Rightarrow> py_error + rat" where
  "py_truediv x n = (if n = 0 then Inl ZeroDivisionError else Inr (fdiv x (py_float n)))"

text \<open>
  \<^verbatim>\<open>sum(...)\<close> over float durations: it starts from the \<^verbatim>\<open>int\<close> 0 and adds from
  the left, each addition rounded (CPython before 3.12; from 3.12 on the sum of
  floats carries a compensation term, which can change the last bit). The model
  holds while the sum stays below the overflow threshold of binary64, beyond which
  Python gives an infinity. The sum of no number is the \<^verbatim>\<open>int\<close> 0 in every case,
  and that is the only value of \<open>py_sum\<close> that the statement about \<^verbatim>\<open>get_stats\<close>
  below uses.
\<close>

definition py_sum :: "rat list \<Rightarrow> rat" where
  "py_sum xs = foldl fadd 0 xs"

text \<open>
  \<^verbatim>\<open>round(x, 2)\<close>: the decimal with two places nearest to \<open>x\<close>, ties to the even
  one, as a float.
\<close>

definition py_round2 :: "rat \<Rightarrow> rat" where
  "py_round2 x = fl (of_int (round_half_even (x * 100)) / 100)"

text \<open>The dict that \<^verbatim>\<open>get_stats\<close> returns.\<close>

record stats =
  total_samples :: nat
  categories :: nat
  category_names :: "string list"
  avg_duration :: rat
  total_duration :: rat

definition get_stats :: "sample list \<Rightarrow> py_error + stats" where
  "get_stats samples =
     (let cats = set (map script_title samples)
      in case py_truediv (py_sum (map sentence_estimated_duration samples)) (length samples) of
           Inl e \<Rightarrow> Inl e
         | Inr avg \<Rightarrow>
             Inr \<lparr> total_samples = length samples,
                   categories = card cats,
                   category_names = sorted_list_of_set cats,
                   avg_duration = py_round2 avg,
                   total_duration =
                     py_round2 (py_sum (map sentence_estimated_duration samples)) \<rparr>)"

subsection \<open>search_samples\<close>

text \<open>The loop of \<^verbatim>\<open>search_samples\<close>; \<open>results\<close> is the list built so far.\<close>

fun search_loop :: "string \<Rightarrow> sample list \<Rightarrow> sample list \<Rightarrow> sample list" where
  "search_loop query [] results = results"
| "search_loop query (s # ss) results =
     search_loop query ss
       (if py_contains query (py_lower (words s)) then results @ [s] else results)"

definition search_samples :: "sample list \<Rightarrow> string \<Rightarrow> sample list" where
  "search_samples samples query = search_loop (py_lower query) samples []"

subsection \<open>analyze_phonemes\<close>

text \<open>The dict that \<^verbatim>\<open>analyze_phonemes\<close> returns.\<close>

record analysis =
  text_of :: string
  phoneme_count :: nat
  phonemes :: "string list"
  full_sequence :: string
  transcription_of :: string

definition analyze_phonemes :: "sample list \<Rightarrow> string \<Rightarrow> analysis option" where
  "analyze_phonemes samples name =
     (case find_sample_by_id samples name of
        None \<Rightarrow> None
      | Some s \<Rightarrow>
          (let phs = py_split_sep '' # '' (phone_sequence s)
           in Some \<lparr> text_of = words s,
                     phoneme_count = length phs,
                     phonemes = phs,
                     full_sequence = phone_sequence s,
                     transcription_of = transcription s \<rparr>))"

section \<open>Properties of the string functions\<close>

lemma py_contains_sublist: "py_contains sub s \<longleftrightarrow> sublist sub s"
  by (induction s) (auto simp: sublist_Cons_right)

lemma split_sep_from_nonempty: "split_sep_from sep cur s \<noteq> []"
  by (induction sep cur s rule: split_sep_from.induct) auto

lemma py_split_sep_length: "1 \<le> length (py_split_sep sep s)"
  using split_sep_from_nonempty [of sep "[]" s]
  by (cases "py_split_sep sep s") (auto simp: py_split_sep_def)

section \<open>search_samples\<close>

lemma search_loop_filter:
  "search_loop q ss acc = acc @ filter (\<lambda>s. py_contains q (py_lower (words s))) ss"
  by (induction ss arbitrary: acc) auto

text \<open>
  C9. \<^verbatim>\<open>search_samples\<close> returns exactly the records whose lower-cased text
  contains the lower-cased query as a contiguous substring, in corpus order, and the
  empty query returns the whole corpus.
\<close>

theorem search_samples_exact:
  "search_samples samples query =
     filter (\<lambda>s. \<exists>ps ss. py_lower (words s) = ps @ py_lower query @ ss) samples
   \<and> search_samples samples [] = samples"
proof
  show "search_samples samples query =
     filter (\<lambda>s. \<exists>ps ss. py_lower (words s) = ps @ py_lower query @ ss) samples"
    by (simp add: search_samples_def search_loop_filter py_contains_sublist sublist_def)
next
  have "py_contains [] t" for t
    by (simp add: py_contains_sublist)
  then show "search_samples samples [] = samples"
    by (simp add: search_samples_def search_loop_filter py_lower_def)
qed

section \<open>analyze_phonemes\<close>

text \<open>
  C10. For a record found by its id, \<^verbatim>\<open>analyze_phonemes\<close> reports at least one
  phoneme: the split on \<^verbatim>\<open>' # '\<close> never yields an empty list, and a record whose
  phoneme sequence is the empty string is reported with count 1 and the single
  phoneme \<^verbatim>\<open>''\<close>.
\<close>

theorem analyze_phonemes_count:
  assumes "find_sample_by_id samples name = Some s"
  shows "\<exists>r. analyze_phonemes samples name = Some r
           \<and> 1 \<le> phoneme_count r
           \<and> phonemes r = py_split_sep '' # '' (phone_sequence s)
           \<and> phoneme_count r = length (phonemes r)
           \<and> (phone_sequence s = [] \<longrightarrow> phoneme_count r = 1 \<and> phonemes r = [[]])"
  using assms py_split_sep_length [of "'' # ''" "phone_sequence s"]
  by (auto simp: analyze_phonemes_def Let_def py_split_sep_def)

theorem analyze_phonemes_count_witness:
  "find_sample_by_id
     [\<lparr> utterance_name = ''u1'', words = ''hi'', script_title = ''greeting'',
        sentence_estimated_duration = 1, phone_sequence = [],
        transcription = ''hi'' \<rparr>] ''u1''
   = Some \<lparr> utterance_name = ''u1'', words = ''hi'', script_title = ''greeting'',
        sentence_estimated_duration = 1, phone_sequence = [],
        transcription = ''hi'' \<rparr>
   \<and> (\<exists>r. analyze_phonemes
        [\<lparr> utterance_name = ''u1'', words = ''hi'', script_title = ''greeting'',
           sentence_estimated_duration = 1, phone_sequence = [],
           transcription = ''hi'' \<rparr>] ''u1'' = Some r
        \<and> phoneme_count r = 1 \<and> phonemes r = [[]])"
proof -
  let ?s = "\<lparr> utterance_name = ''u1'', words = ''hi'', script_title = ''greeting'',
        sentence_estimated_duration = 1, phone_sequence = [],
        transcription = ''hi'' \<rparr>"
  have f: "find_sample_by_id [?s] ''u1'' = Some ?s" by simp
  from analyze_phonemes_count [OF f] f show ?thesis by auto
qed

section \<open>Properties of lower, strip and split\<close>

lemma of_char_lower:
  "(of_char (char_lower c) :: nat) =
     (if (65 \<le> (of_char c :: nat) \<and> (of_char c :: nat) \<le> 90)
         \<or> (192 \<le> (of_char c :: nat) \<and> (of_char c :: nat) \<le> 222 \<and> (of_char c :: nat) \<noteq> 215)
      then of_char c + 32 else of_char c)"
  by (simp add: char_lower_def Let_def)

lemma char_lower_idem: "char_lower (char_lower c) = char_lower c"
proof -
  have "(of_char (char_lower (char_lower c)) :: nat) = of_char (char_lower c)"
    by (subst of_char_lower) (auto simp: of_char_lower)
  then show ?thesis by simp
qed

lemma py_isspace_lower: "py_isspace (char_lower c) = py_isspace c"
  unfolding py_isspace_def of_char_lower by auto

lemma py_lower_idem: "py_lower (py_lower s) = py_lower s"
  by (simp add: py_lower_def char_lower_idem)

lemma py_lower_Nil_iff: "py_lower s = [] \<longleftrightarrow> s = []"
  by (simp add: py_lower_def)


subsection \<open>strip\<close>

lemma py_lstrip_id: "s = [] \<or> \<not> py_isspace (hd s) \<Longrightarrow> py_lstrip s = s"
  by (cases s) (auto simp: py_lstrip_def)

lemma py_rstrip_id: "s = [] \<or> \<not> py_isspace (last s) \<Longrightarrow> py_rstrip s = s"
  by (cases s rule: rev_cases) (auto simp: py_rstrip_def)

lemma py_lstrip_hd: "py_lstrip s = [] \<or> \<not> py_isspace (hd (py_lstrip s))"
  using hd_dropWhile [of py_isspace s] by (auto simp: py_lstrip_def)

lemma py_rstrip_last: "py_rstrip s = [] \<or> \<not> py_isspace (last (py_rstrip s))"
  using hd_dropWhile [of py_isspace "rev s"] by (auto simp: py_rstrip_def last_rev)

lemma py_rstrip_Cons:
  "\<not> py_isspace c \<Longrightarrow> py_rstrip (c # cs) = c # py_rstrip cs"
  by (simp add: py_rstrip_def dropWhile_append3)

lemma py_strip_hd_last:
  "py_strip s = [] \<or> (\<not> py_isspace (hd (py_strip s)) \<and> \<not> py_isspace (last (py_strip s)))"
proof (cases "py_lstrip s")
  case Nil
  then show ?thesis by (simp add: py_strip_def py_rstrip_def)
next
  case (Cons c cs)
  then have c: "\<not> py_isspace c" using py_lstrip_hd [of s] by simp
  have "py_strip s = c # py_rstrip cs"
    by (simp add: py_strip_def Cons py_rstrip_Cons [OF c])
  moreover have "\<not> py_isspace (last (py_strip s))"
    using py_rstrip_last [of "py_lstrip s"] calculation by (auto simp: py_strip_def)
  ultimately show ?thesis using c by simp
qed

lemma py_strip_idem: "py_strip (py_strip s) = py_strip s"
proof -
  have "py_lstrip (py_strip s) = py_strip s"
    using py_strip_hd_last [of s] by (intro py_lstrip_id) auto
  moreover have "py_rstrip (py_strip s) = py_strip s"
    using py_strip_hd_last [of s] by (intro py_rstrip_id) auto
  ultimately show ?thesis by (simp add: py_strip_def [of "py_strip s"])
qed

lemma dropWhile_isspace_lower:
  "dropWhile py_isspace (map char_lower s) = map char_lower (dropWhile py_isspace s)"
  by (induction s) (auto simp: py_isspace_lower)

lemma py_strip_lower: "py_strip (py_lower s) = py_lower (py_strip s)"
  by (simp add: py_strip_def py_lstrip_def py_rstrip_def py_lower_def
      dropWhile_isspace_lower rev_map)

subsection \<open>split\<close>

lemma py_split_lstrip: "py_split (py_lstrip s) = py_split s"
  by (subst (1 2) py_split.simps) (simp add: py_lstrip_def)

lemma py_split_snoc_space:
  "py_isspace c \<Longrightarrow> py_split (s @ [c]) = py_split s"
proof (induction s rule: py_split.induct)
  case (1 s)
  show ?case
  proof (cases "dropWhile py_isspace s")
    case Nil
    then have "\<forall>x\<in>set s. py_isspace x"
      by (metis dropWhile_eq_Nil_conv)
    then have "dropWhile py_isspace (s @ [c]) = []"
      using "1.prems" by (simp add: dropWhile_append)
    then show ?thesis
      using Nil by (subst (1 2) py_split.simps) (simp del: dropWhile_eq_Nil_conv)
  next
    case (Cons d ds)
    then have "\<not> (\<forall>x\<in>set s. py_isspace x)"
      by (metis dropWhile_eq_Nil_conv list.distinct(1))
    then have dw: "dropWhile py_isspace (s @ [c]) = d # (ds @ [c])"
      using Cons by (auto simp: dropWhile_append)
    have tw: "takeWhile (\<lambda>x. \<not> py_isspace x) (d # ds @ [c])
                = takeWhile (\<lambda>x. \<not> py_isspace x) (d # ds)"
      using "1.prems" takeWhile_tail [of "\<lambda>x. \<not> py_isspace x" c "d # ds" "[]"]
      by simp
    have dd: "dropWhile (\<lambda>x. \<not> py_isspace x) (d # ds @ [c])
                = dropWhile (\<lambda>x. \<not> py_isspace x) (d # ds) @ [c]"
      using "1.prems" dropWhile_append3 [of "\<lambda>x. \<not> py_isspace x" c "d # ds" "[]"]
      by simp
    have ih: "py_split (dropWhile (\<lambda>x. \<not> py_isspace x) (d # ds) @ [c])
               = py_split (dropWhile (\<lambda>x. \<not> py_isspace x) (d # ds))"
      using "1.IH" [OF Cons "1.prems"] .
    show ?thesis
      apply (subst (1 2) py_split.simps)
      using dw Cons tw dd ih by simp
  qed
qed

lemma py_split_rstrip: "py_split (py_rstrip s) = py_split s"
proof (induction s rule: rev_induct)
  case Nil
  then show ?case by (simp add: py_rstrip_def)
next
  case (snoc c s)
  show ?case
  proof (cases "py_isspace c")
    case True
    then have "py_rstrip (s @ [c]) = py_rstrip s" by (simp add: py_rstrip_def)
    then show ?thesis using snoc True by (simp add: py_split_snoc_space)
  next
    case False
    then show ?thesis by (simp add: py_rstrip_def)
  qed
qed

lemma py_split_strip: "py_split (py_strip s) = py_split s"
  by (simp add: py_strip_def py_split_rstrip py_split_lstrip)

lemma py_split_Nil: "py_split [] = []"
  by (subst py_split.simps) simp

subsection \<open>floats\<close>

lemma fl_0: "fl 0 = 0"
  by (simp add: fl_def)

lemma lit_0_3_value: "lit_0_3 = 5404319552844595 / 18014398509481984"
  by code_simp

lemma lit_0_3_pos: "0 < lit_0_3"
  by (simp add: lit_0_3_value)

section \<open>The loop of find_closest_match\<close>

text \<open>The score that the loop gives to a sample that is not an exact match.\<close>

definition sample_score :: "string \<Rightarrow> sample \<Rightarrow> rat" where
  "sample_score text s = match_score text (py_lower (words s))"

lemma fcm_loop_exact:
  assumes "\<forall>x\<in>set pre. py_lower (words x) \<noteq> text" and "py_lower (words s) = text"
  shows "fcm_loop text (pre @ s # post) bm bs = Some s"
  using assms by (induction pre arbitrary: bm bs) (auto simp: Let_def)

lemma fcm_loop_scored:
  assumes "\<forall>s\<in>set samples. py_lower (words s) \<noteq> text"
    and "\<forall>s\<in>set pre. sample_score text s \<le> bs"
    and "case bm of
           None \<Rightarrow> bs = 0
         | Some r \<Rightarrow> 0 < bs \<and> (\<exists>i<length pre. pre ! i = r \<and> sample_score text r = bs
                         \<and> (\<forall>j<i. sample_score text (pre ! j) < bs))"
  shows "case fcm_loop text samples bm bs of
           None \<Rightarrow> \<forall>s\<in>set (pre @ samples). sample_score text s \<le> lit_0_3
         | Some r \<Rightarrow> \<exists>i<length (pre @ samples). (pre @ samples) ! i = r
               \<and> lit_0_3 < sample_score text r
               \<and> (\<forall>s\<in>set (pre @ samples). sample_score text s \<le> sample_score text r)
               \<and> (\<forall>j<i. sample_score text ((pre @ samples) ! j) < sample_score text r)"
  using assms
proof (induction samples arbitrary: pre bm bs)
  case Nil
  show ?case
  proof (cases "lit_0_3 < bs")
    case True
    with Nil.prems(3) lit_0_3_pos obtain r where r: "bm = Some r"
      by (cases bm) auto
    with Nil.prems True show ?thesis by auto
  next
    case False
    with Nil.prems(2) show ?thesis by fastforce
  qed
next
  case (Cons s ss)
  have ne: "py_lower (words s) \<noteq> text" and rest: "\<forall>x\<in>set ss. py_lower (words x) \<noteq> text"
    using Cons.prems(1) by auto
  have bs0: "0 \<le> bs" using Cons.prems(3) by (cases bm) auto
  show ?case
  proof (cases "bs < sample_score text s")
    case True
    have step: "fcm_loop text (s # ss) bm bs = fcm_loop text ss (Some s) (sample_score text s)"
      using ne True by (simp add: Let_def sample_score_def)
    have a: "\<forall>x\<in>set (pre @ [s]). sample_score text x \<le> sample_score text s"
      using Cons.prems(2) True by fastforce
    have b: "case Some s of
           None \<Rightarrow> sample_score text s = 0
         | Some r \<Rightarrow> 0 < sample_score text s \<and> (\<exists>i<length (pre @ [s]). (pre @ [s]) ! i = r
               \<and> sample_score text r = sample_score text s
               \<and> (\<forall>j<i. sample_score text ((pre @ [s]) ! j) < sample_score text s))"
    proof -
      have "\<forall>j<length pre. sample_score text ((pre @ [s]) ! j) < sample_score text s"
      proof (intro allI impI)
        fix j assume j: "j < length pre"
        then have "sample_score text (pre ! j) \<le> bs"
          using Cons.prems(2) by simp
        then show "sample_score text ((pre @ [s]) ! j) < sample_score text s"
          using True j by (simp add: nth_append)
      qed
      moreover have "(pre @ [s]) ! length pre = s" by simp
      ultimately show ?thesis using bs0 True
        by (auto intro!: exI [of _ "length pre"])
    qed
    from Cons.IH [OF rest a b] show ?thesis
      unfolding step append_assoc append_Cons append_Nil .
  next
    case False
    have step: "fcm_loop text (s # ss) bm bs = fcm_loop text ss bm bs"
      using ne False by (simp add: Let_def sample_score_def)
    have a: "\<forall>x\<in>set (pre @ [s]). sample_score text x \<le> bs"
      using Cons.prems(2) False by auto
    have b: "case bm of
           None \<Rightarrow> bs = 0
         | Some r \<Rightarrow> 0 < bs \<and> (\<exists>i<length (pre @ [s]). (pre @ [s]) ! i = r
               \<and> sample_score text r = bs
               \<and> (\<forall>j<i. sample_score text ((pre @ [s]) ! j) < bs))"
    proof (cases bm)
      case None
      with Cons.prems(3) show ?thesis by simp
    next
      case (Some r)
      with Cons.prems(3) obtain i where i: "i < length pre" "pre ! i = r"
        "sample_score text r = bs" "\<forall>j<i. sample_score text (pre ! j) < bs" "0 < bs"
        by auto
      have "\<forall>j<i. sample_score text ((pre @ [s]) ! j) < bs"
        using i(1,4) by (simp add: nth_append)
      then show ?thesis using Some i
        by (auto intro!: exI [of _ i] simp: nth_append)
    qed
    from Cons.IH [OF rest a b] show ?thesis
      unfolding step append_assoc append_Cons append_Nil .
  qed
qed

lemma find_closest_match_scored:
  assumes "\<forall>s\<in>set samples. py_lower (words s) \<noteq> py_strip (py_lower query)"
  shows "case find_closest_match samples query of
           None \<Rightarrow> \<forall>s\<in>set samples. sample_score (py_strip (py_lower query)) s \<le> lit_0_3
         | Some r \<Rightarrow> \<exists>i<length samples. samples ! i = r
               \<and> lit_0_3 < sample_score (py_strip (py_lower query)) r
               \<and> (\<forall>s\<in>set samples. sample_score (py_strip (py_lower query)) s
                       \<le> sample_score (py_strip (py_lower query)) r)
               \<and> (\<forall>j<i. sample_score (py_strip (py_lower query)) (samples ! j)
                       < sample_score (py_strip (py_lower query)) r)"
proof -
  have "case (None :: sample option) of
           None \<Rightarrow> (0::rat) = 0
         | Some r \<Rightarrow> 0 < (0::rat) \<and> (\<exists>i<length ([] :: sample list). [] ! i = r
               \<and> sample_score (py_strip (py_lower query)) r = 0
               \<and> (\<forall>j<i. sample_score (py_strip (py_lower query)) ([] ! j) < 0))"
    by simp
  from fcm_loop_scored [OF assms _ this] show ?thesis
    unfolding find_closest_match_def append_Nil by simp
qed

lemma exact_normalized:
  "py_lower (words s) = py_strip (py_lower query)
   \<Longrightarrow> py_strip (py_lower (words s)) = py_strip (py_lower query)"
  by (simp add: py_strip_idem)

section \<open>A sample with an empty text\<close>

lemma flm_rows_no_index:
  "\<forall>i\<in>set is. b2j (a ! i) = None \<Longrightarrow> flm_rows a b2j blo bhi is j2len best = best"
  by (induction "is" arbitrary: j2len) auto

lemma chain_b_Nil: "chain_b [] = Map.empty"
  by (simp add: chain_b_def)

lemma find_longest_match_empty_b:
  "find_longest_match a [] Map.empty 0 ahi 0 0 = (0, 0, 0)"
  by (simp add: find_longest_match_def flm_rows_no_index extend_left.simps extend_right.simps)

lemma get_matching_blocks_empty_b: "get_matching_blocks a [] = [(length a, 0, 0)]"
  by (simp add: get_matching_blocks_def chain_b_Nil gmb_loop.simps find_longest_match_empty_b)

lemma ratio_empty_b: "a \<noteq> [] \<Longrightarrow> ratio a [] = 0"
  by (simp add: ratio_def get_matching_blocks_empty_b calculate_ratio_def py_float_def
      fmul_def fdiv_def fl_0)

lemma word_overlap_empty_b: "word_overlap text [] = 0"
  by (simp add: word_overlap_def Let_def py_split_Nil int_truediv_def fl_0)

lemma match_score_empty_b: "text \<noteq> [] \<Longrightarrow> match_score text [] = 0"
  by (simp add: match_score_def ratio_empty_b word_overlap_empty_b fmul_def fadd_def fl_0)

section \<open>Example corpora\<close>

definition mk_sample :: "string \<Rightarrow> string \<Rightarrow> sample" where
  "mk_sample uid w =
     \<lparr> utterance_name = uid, words = w, script_title = ''greeting'',
       sentence_estimated_duration = 1, phone_sequence = ''g # m'', transcription = w \<rparr>"

section \<open>find_closest_match: the exact match\<close>

text \<open>
  C1, as the code has it. The query is lower-cased and stripped, a sample's text is
  lower-cased only. If the lower-cased text of some sample equals the lower-cased,
  stripped query, \<^verbatim>\<open>find_closest_match\<close> returns the first such sample in corpus
  order, whatever the scores of the samples before it.
\<close>

theorem find_closest_match_first_exact:
  assumes "i < length samples"
    and "py_lower (words (samples ! i)) = py_strip (py_lower query)"
    and "\<forall>j<i. py_lower (words (samples ! j)) \<noteq> py_strip (py_lower query)"
  shows "find_closest_match samples query = Some (samples ! i)"
proof -
  have split: "samples = take i samples @ samples ! i # drop (Suc i) samples"
    using assms(1) by (simp add: id_take_nth_drop)
  have "\<forall>x\<in>set (take i samples). py_lower (words x) \<noteq> py_strip (py_lower query)"
  proof
    fix x assume "x \<in> set (take i samples)"
    then obtain j where "j < i" "x = samples ! j"
      using assms(1) by (auto simp: in_set_conv_nth)
    with assms(3) show "py_lower (words x) \<noteq> py_strip (py_lower query)" by simp
  qed
  from fcm_loop_exact [OF this assms(2)] show ?thesis
    unfolding find_closest_match_def by (subst split) simp
qed

theorem find_closest_match_first_exact_witness:
  "find_closest_match
     [mk_sample ''u1'' ''Good Night'', mk_sample ''u2'' ''Good Morning'',
      mk_sample ''u3'' ''good morning'']
     ''  good MORNING ''
   = Some (mk_sample ''u2'' ''Good Morning'')"
proof -
  let ?c = "[mk_sample ''u1'' ''Good Night'', mk_sample ''u2'' ''Good Morning'',
      mk_sample ''u3'' ''good morning'']"
  have 1: "1 < length ?c" by simp
  have q: "py_strip (py_lower ''  good MORNING '') = ''good morning''"
    and t: "py_lower ''Good Morning'' = ''good morning''" "py_lower ''Good Night'' = ''good night''"
    by code_simp+
  have 2: "py_lower (words (?c ! 1)) = py_strip (py_lower ''  good MORNING '')"
    by (simp add: mk_sample_def q t)
  have 3: "\<forall>j<1. py_lower (words (?c ! j)) \<noteq> py_strip (py_lower ''  good MORNING '')"
    by (simp add: mk_sample_def q t)
  from find_closest_match_first_exact [OF 1 2 3] show ?thesis by simp
qed

text \<open>
  The claim as stated fails: the text of the first sample, stripped and lower-cased,
  equals the normalized query, and the second sample is returned.
\<close>

theorem find_closest_match_stripped_counterexample:
  "py_strip (py_lower (words (mk_sample ''u1'' '' hello '')))
     = py_strip (py_lower ''hello'')
   \<and> find_closest_match
       [mk_sample ''u1'' '' hello '', mk_sample ''u2'' ''hello''] ''hello''
     = Some (mk_sample ''u2'' ''hello'')
   \<and> mk_sample ''u2'' ''hello'' \<noteq> mk_sample ''u1'' '' hello ''"
proof -
  have "py_strip (py_lower '' hello '') = py_strip (py_lower ''hello'')"
    by code_simp
  moreover have "find_closest_match
       [mk_sample ''u1'' '' hello '', mk_sample ''u2'' ''hello''] ''hello''
     = Some (mk_sample ''u2'' ''hello'')"
    by code_simp
  ultimately show ?thesis by (simp add: mk_sample_def)
qed

section \<open>find_closest_match: the scored pass\<close>

text \<open>
  C4. When no sample's normalized text equals the normalized query,
  \<^verbatim>\<open>find_closest_match\<close> returns a sample of maximal score if that score is
  strictly greater than 0.3, and \<^verbatim>\<open>None\<close> if no score is greater than 0.3.
\<close>

theorem find_closest_match_threshold:
  assumes "\<forall>s\<in>set samples.
             py_strip (py_lower (words s)) \<noteq> py_strip (py_lower query)"
  shows "case find_closest_match samples query of
           None \<Rightarrow> \<forall>s\<in>set samples. sample_score (py_strip (py_lower query)) s \<le> lit_0_3
         | Some r \<Rightarrow> r \<in> set samples
               \<and> lit_0_3 < sample_score (py_strip (py_lower query)) r
               \<and> (\<forall>s\<in>set samples. sample_score (py_strip (py_lower query)) s
                       \<le> sample_score (py_strip (py_lower query)) r)"
proof -
  have "\<forall>s\<in>set samples. py_lower (words s) \<noteq> py_strip (py_lower query)"
    using assms exact_normalized by blast
  from find_closest_match_scored [OF this] show ?thesis
    by (cases "find_closest_match samples query") auto
qed

theorem find_closest_match_threshold_witness:
  "find_closest_match
     [mk_sample ''u1'' ''good morning everyone'', mk_sample ''u2'' ''good night everyone'']
     ''good morning''
   = Some (mk_sample ''u1'' ''good morning everyone'')
   \<and> lit_0_3 < sample_score ''good morning'' (mk_sample ''u1'' ''good morning everyone'')
   \<and> sample_score ''good morning'' (mk_sample ''u2'' ''good night everyone'')
       \<le> sample_score ''good morning'' (mk_sample ''u1'' ''good morning everyone'')
   \<and> find_closest_match [mk_sample ''u1'' ''xyz123''] ''completely unrelated phrase'' = None
   \<and> sample_score ''completely unrelated phrase'' (mk_sample ''u1'' ''xyz123'') \<le> lit_0_3"
proof -
  let ?c = "[mk_sample ''u1'' ''good morning everyone'',
             mk_sample ''u2'' ''good night everyone'']"
  have t: "py_strip (py_lower ''good morning everyone'') = ''good morning everyone''"
    "py_strip (py_lower ''good night everyone'') = ''good night everyone''"
    "py_strip (py_lower ''xyz123'') = ''xyz123''"
    by code_simp+
  have r: "find_closest_match ?c ''good morning''
             = Some (mk_sample ''u1'' ''good morning everyone'')"
    by code_simp
  have n: "py_strip (py_lower ''good morning'') = ''good morning''"
    by code_simp
  have h: "\<forall>s\<in>set ?c. py_strip (py_lower (words s)) \<noteq> py_strip (py_lower ''good morning'')"
    by (simp add: mk_sample_def t n)
  let ?d = "[mk_sample ''u1'' ''xyz123'']"
  have n': "py_strip (py_lower ''completely unrelated phrase'') = ''completely unrelated phrase''"
    by code_simp
  have h': "\<forall>s\<in>set ?d. py_strip (py_lower (words s))
              \<noteq> py_strip (py_lower ''completely unrelated phrase'')"
    by (simp add: mk_sample_def t n')
  have r': "find_closest_match ?d ''completely unrelated phrase'' = None"
    by code_simp
  from find_closest_match_threshold [OF h] find_closest_match_threshold [OF h'] r r' n n'
  show ?thesis by simp
qed

text \<open>
  C5. In the scored pass the sample returned is the first one, in corpus order, that
  attains the maximal score: every sample before it has a strictly smaller score.
\<close>

theorem find_closest_match_first_of_ties:
  assumes "\<forall>s\<in>set samples. py_lower (words s) \<noteq> py_strip (py_lower query)"
    and "find_closest_match samples query = Some r"
  shows "\<exists>i<length samples. samples ! i = r
           \<and> (\<forall>j<length samples. sample_score (py_strip (py_lower query)) (samples ! j)
                   \<le> sample_score (py_strip (py_lower query)) r)
           \<and> (\<forall>j<i. sample_score (py_strip (py_lower query)) (samples ! j)
                   < sample_score (py_strip (py_lower query)) r)"
  using find_closest_match_scored [OF assms(1)] assms(2) by auto

theorem find_closest_match_first_of_ties_witness:
  "find_closest_match
     [mk_sample ''a'' ''good night'', mk_sample ''b'' ''good night'',
      mk_sample ''c'' ''good knight'']
     ''good nite''
   = Some (mk_sample ''a'' ''good night'')
   \<and> sample_score ''good nite'' (mk_sample ''b'' ''good night'')
       = sample_score ''good nite'' (mk_sample ''a'' ''good night'')
   \<and> (\<exists>i<length [mk_sample ''a'' ''good night'', mk_sample ''b'' ''good night'',
              mk_sample ''c'' ''good knight''].
           [mk_sample ''a'' ''good night'', mk_sample ''b'' ''good night'',
              mk_sample ''c'' ''good knight''] ! i = mk_sample ''a'' ''good night''
         \<and> (\<forall>j<i. sample_score ''good nite''
                ([mk_sample ''a'' ''good night'', mk_sample ''b'' ''good night'',
                  mk_sample ''c'' ''good knight''] ! j)
              < sample_score ''good nite'' (mk_sample ''a'' ''good night'')))"
proof -
  let ?c = "[mk_sample ''a'' ''good night'', mk_sample ''b'' ''good night'',
      mk_sample ''c'' ''good knight'']"
  have n: "py_strip (py_lower ''good nite'') = ''good nite''"
    and t: "py_lower ''good night'' = ''good night''" "py_lower ''good knight'' = ''good knight''"
    by code_simp+
  have h: "\<forall>s\<in>set ?c. py_lower (words s) \<noteq> py_strip (py_lower ''good nite'')"
    by (simp add: mk_sample_def n t)
  have r: "find_closest_match ?c ''good nite'' = Some (mk_sample ''a'' ''good night'')"
    by code_simp
  have e: "sample_score ''good nite'' (mk_sample ''b'' ''good night'')
       = sample_score ''good nite'' (mk_sample ''a'' ''good night'')"
    by (simp add: sample_score_def mk_sample_def)
  from find_closest_match_first_of_ties [OF h r]
  have "\<exists>i<length ?c. ?c ! i = mk_sample ''a'' ''good night''
         \<and> (\<forall>j<i. sample_score ''good nite'' (?c ! j)
              < sample_score ''good nite'' (mk_sample ''a'' ''good night''))"
    unfolding n by blast
  with r e show ?thesis by blast
qed

section \<open>find_closest_match: samples with an empty text\<close>

text \<open>
  C7, as the code has it. For a query that is not empty after normalization,
  \<^verbatim>\<open>find_closest_match\<close> never returns a sample whose text is empty: such a
  sample is no exact match and its score is 0.
\<close>

theorem find_closest_match_nonempty_text:
  assumes "py_strip (py_lower query) \<noteq> []"
    and "find_closest_match samples query = Some r"
  shows "words r \<noteq> []"
proof (cases "\<exists>s\<in>set samples. py_lower (words s) = py_strip (py_lower query)")
  case True
  then obtain pre s post where sp: "samples = pre @ s # post"
    and s: "py_lower (words s) = py_strip (py_lower query)"
    and pre: "\<forall>x\<in>set pre. py_lower (words x) \<noteq> py_strip (py_lower query)"
    using split_list_first_prop [of samples "\<lambda>s. py_lower (words s) = py_strip (py_lower query)"]
    by blast
  have "find_closest_match samples query = Some s"
    unfolding find_closest_match_def sp by (rule fcm_loop_exact [OF pre s])
  with assms(2) have "r = s" by simp
  with s assms(1) show ?thesis by (auto simp: py_lower_def)
next
  case False
  then have "\<forall>s\<in>set samples. py_lower (words s) \<noteq> py_strip (py_lower query)" by blast
  from find_closest_match_scored [OF this] assms(2)
  have sc: "lit_0_3 < sample_score (py_strip (py_lower query)) r" by auto
  show ?thesis
  proof
    assume "words r = []"
    then have "sample_score (py_strip (py_lower query)) r = 0"
      using assms(1) by (simp add: sample_score_def py_lower_def match_score_empty_b)
    with sc lit_0_3_pos show False by simp
  qed
qed

theorem find_closest_match_nonempty_text_witness:
  "py_strip (py_lower ''Hello'') \<noteq> []
   \<and> find_closest_match [mk_sample ''e'' '''', mk_sample ''u1'' ''hello there''] ''Hello''
       = Some (mk_sample ''u1'' ''hello there'')
   \<and> words (mk_sample ''u1'' ''hello there'') \<noteq> []"
proof -
  have h: "py_strip (py_lower ''Hello'') \<noteq> []" by code_simp
  have r: "find_closest_match [mk_sample ''e'' '''', mk_sample ''u1'' ''hello there''] ''Hello''
       = Some (mk_sample ''u1'' ''hello there'')"
    by code_simp
  from find_closest_match_nonempty_text [OF h r] h r show ?thesis by simp
qed

text \<open>
  The claim as stated fails for a query of whitespace only: it is normalized to the
  empty string, which the empty text matches exactly.
\<close>

theorem find_closest_match_empty_text_counterexample:
  "find_closest_match [mk_sample ''e'' ''''] ''   '' = Some (mk_sample ''e'' '''')
   \<and> words (mk_sample ''e'' '''') = []"
proof -
  have "find_closest_match [mk_sample ''e'' ''''] ''   '' = Some (mk_sample ''e'' '''')"
    by code_simp
  then show ?thesis by (simp add: mk_sample_def)
qed

section \<open>find_closest_match: normalization\<close>

lemma fcm_loop_map_lower:
  "fcm_loop text (map (\<lambda>s. s\<lparr>words := py_lower (words s)\<rparr>) samples)
       (map_option (\<lambda>s. s\<lparr>words := py_lower (words s)\<rparr>) bm) bs
   = map_option (\<lambda>s. s\<lparr>words := py_lower (words s)\<rparr>) (fcm_loop text samples bm bs)"
proof (induction samples arbitrary: bm bs)
  case Nil
  show ?case by simp
next
  case (Cons a samples)
  have some: "fcm_loop text (map (\<lambda>s. s\<lparr>words := py_lower (words s)\<rparr>) samples)
                (Some (a\<lparr>words := py_lower (words a)\<rparr>)) sc
              = map_option (\<lambda>s. s\<lparr>words := py_lower (words s)\<rparr>)
                  (fcm_loop text samples (Some a) sc)" for sc
    using Cons.IH [of "Some a" sc] by simp
  show ?case
    using Cons.IH [of bm bs] by (simp add: Let_def py_lower_idem some)
qed

text \<open>
  C6, as the code has it. The query is lower-cased and stripped of leading and
  trailing whitespace; the text of a sample is lower-cased and not stripped. So the
  result does not depend on the case or the surrounding whitespace of the query, nor
  on the case of the texts of the corpus.
\<close>

theorem find_closest_match_normalization:
  "find_closest_match samples (py_lower query) = find_closest_match samples query
   \<and> find_closest_match samples (py_strip query) = find_closest_match samples query
   \<and> find_closest_match (map (\<lambda>s. s\<lparr>words := py_lower (words s)\<rparr>) samples) query
       = map_option (\<lambda>s. s\<lparr>words := py_lower (words s)\<rparr>)
           (find_closest_match samples query)"
proof (intro conjI)
  show "find_closest_match samples (py_lower query) = find_closest_match samples query"
    by (simp add: find_closest_match_def py_lower_idem)
  show "find_closest_match samples (py_strip query) = find_closest_match samples query"
    by (simp add: find_closest_match_def py_strip_lower [symmetric] py_strip_idem)
  show "find_closest_match (map (\<lambda>s. s\<lparr>words := py_lower (words s)\<rparr>) samples) query
       = map_option (\<lambda>s. s\<lparr>words := py_lower (words s)\<rparr>)
           (find_closest_match samples query)"
    using fcm_loop_map_lower [of _ samples None 0] by (simp add: find_closest_match_def)
qed

text \<open>
  The claim as stated fails: the first sample's text, normalized as the query is,
  equals the normalized query, but the code compares the text with its trailing
  whitespace, scores it, and returns the second sample, whose score is higher.
\<close>

theorem find_closest_match_normalization_counterexample:
  "py_strip (py_lower (words (mk_sample ''u1'' ''hi                    '')))
     = py_strip (py_lower ''hi'')
   \<and> py_lower (words (mk_sample ''u1'' ''hi                    ''))
     \<noteq> py_strip (py_lower ''hi'')
   \<and> find_closest_match
       [mk_sample ''u1'' ''hi                    '', mk_sample ''u2'' ''hi!''] ''hi''
     = Some (mk_sample ''u2'' ''hi!'')"
proof -
  have "py_strip (py_lower ''hi                    '') = py_strip (py_lower ''hi'')"
    and "py_lower ''hi                    '' \<noteq> py_strip (py_lower ''hi'')"
    by code_simp+
  moreover have "find_closest_match
       [mk_sample ''u1'' ''hi                    '', mk_sample ''u2'' ''hi!''] ''hi''
     = Some (mk_sample ''u2'' ''hi!'')"
    by code_simp
  ultimately show ?thesis by (simp add: mk_sample_def)
qed

section \<open>find_closest_match: the word-overlap bonus\<close>

text \<open>
  C3. The bonus added to the ratio is 0.3 times the share of the query's words that
  occur among the sample's words, both sets taken from the normalized strings split
  on whitespace, and 0 when the query has no word.
\<close>

theorem word_overlap_bonus:
  "match_score (py_strip (py_lower query)) (py_lower (words s))
   = fadd (ratio (py_strip (py_lower query)) (py_lower (words s)))
       (if set (py_split (py_strip (py_lower query))) = {} then 0
        else fmul
               (int_truediv
                  (card (set (py_split (py_strip (py_lower query)))
                           \<inter> set (py_split (py_strip (py_lower (words s))))))
                  (card (set (py_split (py_strip (py_lower query))))))
               lit_0_3)"
  by (simp add: match_score_def word_overlap_def Let_def py_split_strip fmul_def fl_0)

section \<open>get_stats\<close>

text \<open>
  C8, as the code has it. \<^verbatim>\<open>get_stats\<close> has no guard: on an empty corpus it
  reaches the division by \<^verbatim>\<open>len(self.samples)\<close>, which raises
  \<^verbatim>\<open>ZeroDivisionError\<close>, and no statistics are returned.
\<close>

theorem get_stats_empty_corpus:
  "get_stats [] = Inl ZeroDivisionError \<and> (\<forall>st. get_stats [] \<noteq> Inr st)"
  by (simp add: get_stats_def py_truediv_def Let_def)

text \<open>
  The claim as stated fails: the failure on the empty corpus is the one that the
  division itself raises, with the divisor \<^verbatim>\<open>len(self.samples)\<close> equal to 0.
\<close>

theorem get_stats_empty_corpus_counterexample:
  "get_stats [] = Inl ZeroDivisionError
   \<and> length ([] :: sample list) = 0
   \<and> py_truediv (py_sum (map sentence_estimated_duration [])) (length ([] :: sample list))
       = Inl ZeroDivisionError"
  by (simp add: get_stats_def py_truediv_def Let_def)

section \<open>The Ratcliff/Obershelp similarity, as the specification states it\<close>

text \<open>
  The definitions of this section follow the words of the specification, not the
  code: the longest common contiguous block, and the recursion on the strings left
  and right of it. The choice among several longest blocks, on which the
  specification is silent, is the one of the code.
\<close>

text \<open>The length of the longest common prefix of two lists.\<close>

fun cpl :: "'a list \<Rightarrow> 'a list \<Rightarrow> nat" where
  "cpl (x # xs) (y # ys) = (if x = y then Suc (cpl xs ys) else 0)"
| "cpl xs ys = 0"

text \<open>The length of the longest common contiguous block of two strings.\<close>

definition lcb_len :: "string \<Rightarrow> string \<Rightarrow> nat" where
  "lcb_len a b =
     Max (insert 0 (set (map (\<lambda>(i, j). cpl (drop i a) (drop j b))
                           (List.product [0..<length a] [0..<length b]))))"

text \<open>
  The longest common contiguous block, as (start in \<open>a\<close>, start in \<open>b\<close>, length);
  among the blocks of that length the one that starts first in \<open>a\<close>, and of those
  the one that starts first in \<open>b\<close>. Without a common element it is \<open>(0, 0, 0)\<close>.
\<close>

definition longest_block :: "string \<Rightarrow> string \<Rightarrow> nat \<times> nat \<times> nat" where
  "longest_block a b =
     (let m = lcb_len a b
      in if m = 0 then (0, 0, 0)
         else case find (\<lambda>(i, j). cpl (drop i a) (drop j b) = m)
                     (List.product [0..<length a] [0..<length b]) of
                None \<Rightarrow> (0, 0, 0)
              | Some (i, j) \<Rightarrow> (i, j, m))"


section \<open>Blocks of a region\<close>

text \<open>
  \<open>rblock a b alo ahi blo bhi i j k\<close>: the \<open>k\<close> elements of \<open>a\<close> from \<open>i\<close> and of \<open>b\<close>
  from \<open>j\<close> are equal and lie in \<^verbatim>\<open>a[alo:ahi]\<close> and \<^verbatim>\<open>b[blo:bhi]\<close>.
\<close>

definition rblock ::
  "'a list \<Rightarrow> 'a list \<Rightarrow> nat \<Rightarrow> nat \<Rightarrow> nat \<Rightarrow> nat \<Rightarrow> nat \<Rightarrow> nat \<Rightarrow> nat \<Rightarrow> bool" where
  "rblock a b alo ahi blo bhi i j k =
     (alo \<le> i \<and> i + k \<le> ahi \<and> blo \<le> j \<and> j + k \<le> bhi
      \<and> (\<forall>d<k. a ! (i + d) = b ! (j + d)))"

text \<open>
  \<open>first_longest a b alo ahi blo bhi (i, j, k)\<close>: the block is a longest one of the
  region and, among the longest, the first in the order of the starts \<open>(i, j)\<close>; in
  a region without a common element it is \<open>(alo, blo, 0)\<close>.
\<close>

definition first_longest ::
  "'a list \<Rightarrow> 'a list \<Rightarrow> nat \<Rightarrow> nat \<Rightarrow> nat \<Rightarrow> nat \<Rightarrow> nat \<times> nat \<times> nat \<Rightarrow> bool" where
  "first_longest a b alo ahi blo bhi r =
     (case r of (i, j, k) \<Rightarrow>
        (k = 0 \<and> i = alo \<and> j = blo
           \<and> (\<forall>i' j'. alo \<le> i' \<and> i' < ahi \<and> blo \<le> j' \<and> j' < bhi \<longrightarrow> a ! i' \<noteq> b ! j'))
        \<or> (0 < k \<and> rblock a b alo ahi blo bhi i j k
             \<and> (\<forall>i' j' k'. rblock a b alo ahi blo bhi i' j' k'
                    \<longrightarrow> k' < k \<or> (k' = k \<and> (i, j) \<le> (i', j')))))"

lemma first_longest_unique:
  assumes "first_longest a b alo ahi blo bhi r" and "first_longest a b alo ahi blo bhi r'"
  shows "r = r'"
proof -
  obtain i j k where r: "r = (i, j, k)" by (cases r) auto
  obtain i' j' k' where r': "r' = (i', j', k')" by (cases r') auto
  have pair: "rblock a b alo ahi blo bhi x y z \<Longrightarrow> 0 < z
              \<Longrightarrow> alo \<le> x \<and> x < ahi \<and> blo \<le> y \<and> y < bhi \<and> a ! x = b ! y" for x y z
    unfolding rblock_def by (metis add.right_neutral add_lessD1 less_add_same_cancel1
        linorder_not_less order_less_le_trans)
  show ?thesis
  proof (cases "k = 0")
    case True
    with assms r r' pair [of i' j' k'] show ?thesis
      by (auto simp: first_longest_def)
  next
    case False
    with assms r r' pair [of i j k] have k': "0 < k'"
      by (auto simp: first_longest_def)
    from False k' assms r r' have
      b1: "rblock a b alo ahi blo bhi i j k" and b2: "rblock a b alo ahi blo bhi i' j' k'"
      and m1: "\<forall>x y z. rblock a b alo ahi blo bhi x y z \<longrightarrow> z < k \<or> (z = k \<and> (i, j) \<le> (x, y))"
      and m2: "\<forall>x y z. rblock a b alo ahi blo bhi x y z \<longrightarrow> z < k' \<or> (z = k' \<and> (i', j') \<le> (x, y))"
      by (auto simp: first_longest_def)
    from m1 b2 m2 b1 have "k = k'" "(i, j) \<le> (i', j')" "(i', j') \<le> (i, j)"
      by (metis less_asym)+
    moreover from this(2,3) have "(i, j) = (i', j')" by (rule antisym)
    ultimately show ?thesis using r r' by simp
  qed
qed

subsection \<open>The longest block of the specification\<close>

lemma cpl_ge_iff:
  "k \<le> cpl xs ys \<longleftrightarrow> k \<le> length xs \<and> k \<le> length ys \<and> (\<forall>d<k. xs ! d = ys ! d)"
proof (induction xs ys arbitrary: k rule: cpl.induct)
  case (1 x xs y ys)
  show ?case
  proof (cases k)
    case 0
    then show ?thesis by simp
  next
    case (Suc k')
    have "(\<forall>d<Suc k'. (x # xs) ! d = (y # ys) ! d) \<longleftrightarrow> x = y \<and> (\<forall>d<k'. xs ! d = ys ! d)"
      by (auto simp: less_Suc_eq_0_disj)
    then show ?thesis using Suc 1 [of k'] by auto
  qed
qed auto

lemma cpl_drop_ge_iff:
  assumes "i \<le> length a" "j \<le> length b"
  shows "k \<le> cpl (drop i a) (drop j b) \<longleftrightarrow> rblock a b 0 (length a) 0 (length b) i j k"
  using assms by (auto simp: cpl_ge_iff rblock_def)

lemma sorted_product_upt:
  "sorted_wrt (<) (List.product [0..<m] [0..<(n::nat)])"
proof -
  have "sorted_wrt (<) xs \<Longrightarrow> sorted_wrt (<) ys \<Longrightarrow> sorted_wrt (<) (List.product xs ys)"
    for xs ys :: "nat list"
  proof (induction xs)
    case Nil
    then show ?case by simp
  next
    case (Cons x xs)
    have "sorted_wrt (<) (map (Pair x) ys)"
      using Cons.prems(2) by (simp add: sorted_wrt_map less_prod_def)
    moreover have "\<forall>p\<in>set (map (Pair x) ys). \<forall>q\<in>set (List.product xs ys). p < q"
      using Cons.prems(1) by (auto simp: less_prod_def)
    ultimately show ?case
      using Cons by (simp add: sorted_wrt_append)
  qed
  then show ?thesis by (simp add: sorted_wrt_upt)
qed

lemma lcb_len_ge:
  assumes "i < length a" "j < length b"
  shows "cpl (drop i a) (drop j b) \<le> lcb_len a b"
proof -
  have "(i, j) \<in> set (List.product [0..<length a] [0..<length b])"
    using assms by simp
  then have "cpl (drop i a) (drop j b)
      \<in> set (map (\<lambda>(i, j). cpl (drop i a) (drop j b))
                (List.product [0..<length a] [0..<length b]))"
    unfolding set_map by (rule rev_image_eqI) simp
  then show ?thesis
    unfolding lcb_len_def by (intro Max_ge) auto
qed

lemma lcb_len_attained:
  assumes "lcb_len a b \<noteq> 0"
  shows "\<exists>i<length a. \<exists>j<length b. cpl (drop i a) (drop j b) = lcb_len a b"
proof -
  let ?F = "insert 0 (set (map (\<lambda>(i, j). cpl (drop i a) (drop j b))
                           (List.product [0..<length a] [0..<length b])))"
  have "Max ?F \<in> ?F" by (rule Max_in) auto
  with assms have "lcb_len a b \<in> set (map (\<lambda>(i, j). cpl (drop i a) (drop j b))
                           (List.product [0..<length a] [0..<length b]))"
    unfolding lcb_len_def by auto
  then obtain i j where "i < length a" "j < length b"
    "cpl (drop i a) (drop j b) = lcb_len a b"
    by auto
  then show ?thesis by blast
qed

lemma longest_block_first_longest:
  "first_longest a b 0 (length a) 0 (length b) (longest_block a b)"
proof (cases "lcb_len a b = 0")
  case True
  have "a ! i \<noteq> b ! j" if "i < length a" "j < length b" for i j
  proof
    assume "a ! i = b ! j"
    then have "rblock a b 0 (length a) 0 (length b) i j 1"
      using that by (simp add: rblock_def Suc_le_eq)
    then have "1 \<le> cpl (drop i a) (drop j b)"
      using that by (simp add: cpl_drop_ge_iff)
    with lcb_len_ge [OF that] True show False by simp
  qed
  with True show ?thesis by (simp add: first_longest_def longest_block_def Let_def)
next
  case False
  let ?P = "List.product [0..<length a] [0..<length b]"
  let ?p = "\<lambda>(i, j). cpl (drop i a) (drop j b) = lcb_len a b"
  from lcb_len_attained [OF False] obtain i0 j0 where
    "i0 < length a" "j0 < length b" "cpl (drop i0 a) (drop j0 b) = lcb_len a b"
    by blast
  then have "(i0, j0) \<in> set ?P \<and> ?p (i0, j0)" by simp
  then have "\<exists>x\<in>set ?P. ?p x" by blast
  then obtain i j where f: "find ?p ?P = Some (i, j)"
    by (cases "find ?p ?P") (auto simp: find_None_iff)
  then obtain n where n: "n < length ?P" "?P ! n = (i, j)" "?p (i, j)"
    "\<forall>m<n. \<not> ?p (?P ! m)"
    by (auto simp: find_Some_iff)
  from n(1,2) have ij: "i < length a" "j < length b"
    by (metis atLeastLessThan_iff mem_Sigma_iff nth_mem set_product set_upt)+
  have res: "longest_block a b = (i, j, lcb_len a b)"
    using False f by (simp add: longest_block_def Let_def)
  have blk: "rblock a b 0 (length a) 0 (length b) i j (lcb_len a b)"
    using n(3) ij cpl_drop_ge_iff [of i a j b "lcb_len a b"] by simp
  have mx: "k' < lcb_len a b \<or> (k' = lcb_len a b \<and> (i, j) \<le> (i', j'))"
    if b: "rblock a b 0 (length a) 0 (length b) i' j' k'" for i' j' k'
  proof (cases "k' = 0")
    case True
    with False show ?thesis by simp
  next
    case k': False
    with b have lt: "i' < length a" "j' < length b" by (auto simp: rblock_def)
    then have le: "k' \<le> cpl (drop i' a) (drop j' b)"
      using b by (simp add: cpl_drop_ge_iff)
    with lcb_len_ge [OF lt] have "k' \<le> lcb_len a b" by simp
    moreover have "(i, j) \<le> (i', j')" if "k' = lcb_len a b"
    proof -
      from that le lcb_len_ge [OF lt] have p: "?p (i', j')" by simp
      from lt have "(i', j') \<in> set ?P" by simp
      then obtain m where m: "m < length ?P" "?P ! m = (i', j')"
        unfolding in_set_conv_nth by blast
      with p n(4) have "n \<le> m" by (metis linorder_not_less)
      then show ?thesis
      proof (cases "n = m")
        case True
        with m n show ?thesis by simp
      next
        case False
        with \<open>n \<le> m\<close> have "n < m" by simp
        from sorted_wrt_nth_less [OF sorted_product_upt this m(1)] m(2) n(2)
        have "(i, j) < (i', j')" by simp
        then show ?thesis by (rule less_imp_le)
      qed
    qed
    ultimately show ?thesis by auto
  qed
  show ?thesis
    unfolding res first_longest_def using False blk mx by auto
qed


lemma longest_block_bounds:
  assumes "longest_block a b = (i, j, k)" and "k \<noteq> 0"
  shows "i + k \<le> length a \<and> j + k \<le> length b"
  using longest_block_first_longest [of a b] assms
  by (auto simp: first_longest_def rblock_def)

text \<open>
  The number of matched characters: the length of the longest block, plus the
  matched characters of the two strings to its left and of the two strings to its
  right.
\<close>

function ro_matches :: "string \<Rightarrow> string \<Rightarrow> nat" where
  "ro_matches a b =
     (case longest_block a b of
        (i, j, k) \<Rightarrow>
          if k = 0 then 0
          else k + ro_matches (take i a) (take j b)
                 + ro_matches (drop (i + k) a) (drop (j + k) b))"
  by pat_completeness auto
termination
  apply (relation "measure (\<lambda>(a, b). length a)")
    apply simp
   apply (auto dest!: longest_block_bounds [OF sym])
  done

declare ro_matches.simps [simp del]


section \<open>The dynamic program of find_longest_match\<close>

text \<open>
  \<open>back_run a b i j n\<close>: the number of equal pairs \<open>(a ! i, b ! j)\<close>,
  \<open>(a ! (i - 1), b ! (j - 1))\<close>, ... met going back from \<open>(i, j)\<close>, at most \<open>n\<close>.
  \<open>suf_len\<close> is the longest block of the region that ends at \<open>(i, j)\<close>.
\<close>

primrec back_run :: "'a list \<Rightarrow> 'a list \<Rightarrow> nat \<Rightarrow> nat \<Rightarrow> nat \<Rightarrow> nat" where
  "back_run a b i j 0 = 0"
| "back_run a b i j (Suc n) =
     (if a ! i = b ! j then Suc (back_run a b (i - 1) (j - 1) n) else 0)"

definition suf_len :: "'a list \<Rightarrow> 'a list \<Rightarrow> nat \<Rightarrow> nat \<Rightarrow> nat \<Rightarrow> nat \<Rightarrow> nat" where
  "suf_len a b alo blo i j = back_run a b i j (min (i + 1 - alo) (j + 1 - blo))"

lemma back_run_ge_iff:
  assumes "n \<le> i + 1" "n \<le> j + 1"
  shows "k \<le> back_run a b i j n \<longleftrightarrow> k \<le> n \<and> (\<forall>d<k. a ! (i - d) = b ! (j - d))"
  using assms
proof (induction n arbitrary: i j k)
  case 0
  then show ?case by auto
next
  case (Suc n)
  show ?case
  proof (cases k)
    case 0
    then show ?thesis by simp
  next
    case (Suc k')
    have ih: "k' \<le> back_run a b (i - 1) (j - 1) n
               \<longleftrightarrow> k' \<le> n \<and> (\<forall>d<k'. a ! (i - 1 - d) = b ! (j - 1 - d))"
      using Suc.prems by (intro Suc.IH) auto
    have "(\<forall>d<Suc k'. a ! (i - d) = b ! (j - d))
            \<longleftrightarrow> a ! i = b ! j \<and> (\<forall>d<k'. a ! (i - 1 - d) = b ! (j - 1 - d))"
      by (auto simp: less_Suc_eq_0_disj)
    then show ?thesis using Suc ih by auto
  qed
qed

lemma suf_len_ge_iff:
  assumes "alo \<le> i" "blo \<le> j"
  shows "k \<le> suf_len a b alo blo i j
           \<longleftrightarrow> k \<le> i + 1 - alo \<and> k \<le> j + 1 - blo \<and> (\<forall>d<k. a ! (i - d) = b ! (j - d))"
  unfolding suf_len_def using assms by (subst back_run_ge_iff) auto

lemma suf_len_step:
  assumes "alo \<le> i" "blo \<le> j"
  shows "suf_len a b alo blo i j =
           (if a ! i = b ! j
            then Suc (if alo < i \<and> blo < j then suf_len a b alo blo (i - 1) (j - 1) else 0)
            else 0)"
proof -
  have m: "min (i + 1 - alo) (j + 1 - blo) = Suc (min (i - alo) (j - blo))"
    using assms by auto
  show ?thesis
  proof (cases "alo < i \<and> blo < j")
    case True
    then have "min (i - alo) (j - blo) = min (i - 1 + 1 - alo) (j - 1 + 1 - blo)" by auto
    then show ?thesis using True unfolding suf_len_def m by simp
  next
    case False
    then have "min (i - alo) (j - blo) = 0" using assms by auto
    then show ?thesis using False unfolding suf_len_def m by simp
  qed
qed

text \<open>
  The inner loop is a fold over the indices of the region. \<open>prev_len m j\<close> is the
  value \<open>k\<close> that the loop computes at \<open>j\<close> from the previous row \<open>m\<close>,
  \<open>row_step\<close> the update of the best match, \<open>row_map\<close> the new row.
\<close>

definition prev_len :: "(int \<rightharpoonup> nat) \<Rightarrow> nat \<Rightarrow> nat" where
  "prev_len m j = (case m (int j - 1) of None \<Rightarrow> 0 | Some v \<Rightarrow> v) + 1"

definition row_step ::
  "(int \<rightharpoonup> nat) \<Rightarrow> nat \<Rightarrow> nat \<Rightarrow> nat \<times> nat \<times> nat \<Rightarrow> nat \<times> nat \<times> nat" where
  "row_step m i j best =
     (if snd (snd best) < prev_len m j
      then (i + 1 - prev_len m j, j + 1 - prev_len m j, prev_len m j) else best)"

definition row_map ::
  "(int \<rightharpoonup> nat) \<Rightarrow> nat \<Rightarrow> nat \<Rightarrow> nat list \<Rightarrow> (int \<rightharpoonup> nat) \<Rightarrow> (int \<rightharpoonup> nat)" where
  "row_map m blo bhi js new =
     (\<lambda>x. if \<exists>j\<in>set js. blo \<le> j \<and> j < bhi \<and> x = int j
          then Some (prev_len m (nat x)) else new x)"

lemma flm_row_Cons:
  "flm_row m i blo bhi (j # js) new best =
     (if j < blo then flm_row m i blo bhi js new best
      else if bhi \<le> j then (new, best)
      else flm_row m i blo bhi js (new(int j \<mapsto> prev_len m j)) (row_step m i j best))"
  by (cases best) (simp add: prev_len_def row_step_def Let_def)

lemma flm_row_char:
  assumes "sorted js"
  shows "flm_row m i blo bhi js new best =
     (row_map m blo bhi js new, fold (row_step m i) (filter (\<lambda>j. blo \<le> j \<and> j < bhi) js) best)"
  using assms
proof (induction js arbitrary: new best)
  case Nil
  then show ?case by (cases best) (simp add: row_map_def)
next
  case (Cons j js)
  have srt: "sorted js" and ge: "\<forall>x\<in>set js. j \<le> x" using Cons.prems by auto
  show ?case
  proof (cases "j < blo")
    case True
    then have "row_map m blo bhi (j # js) new = row_map m blo bhi js new"
      by (auto simp: row_map_def fun_eq_iff)
    then show ?thesis
      using True Cons.IH [OF srt, of new best] by (simp add: flm_row_Cons del: flm_row.simps)
  next
    case nlo: False
    show ?thesis
    proof (cases "bhi \<le> j")
      case True
      then have "filter (\<lambda>j. blo \<le> j \<and> j < bhi) (j # js) = []"
        using ge by (auto simp: filter_empty_conv)
      moreover have "row_map m blo bhi (j # js) new = new"
        using True ge by (auto simp: row_map_def fun_eq_iff)
      ultimately show ?thesis
        using nlo True by (simp add: flm_row_Cons del: flm_row.simps)
    next
      case False
      have "row_map m blo bhi js (new(int j \<mapsto> prev_len m j)) = row_map m blo bhi (j # js) new"
        using nlo False by (auto simp: row_map_def fun_eq_iff)
      have eq: "row_map m blo bhi js (new(int j \<mapsto> prev_len m j)) = row_map m blo bhi (j # js) new"
        by fact
      have "flm_row m i blo bhi (j # js) new best
              = flm_row m i blo bhi js (new(int j \<mapsto> prev_len m j)) (row_step m i j best)"
        using nlo False by (simp only: flm_row_Cons if_False)
      also have "\<dots> = (row_map m blo bhi js (new(int j \<mapsto> prev_len m j)),
                       fold (row_step m i) (filter (\<lambda>j. blo \<le> j \<and> j < bhi) js)
                         (row_step m i j best))"
        by (rule Cons.IH [OF srt])
      also have "\<dots> = (row_map m blo bhi (j # js) new,
                       fold (row_step m i) (filter (\<lambda>j. blo \<le> j \<and> j < bhi) (j # js)) best)"
        unfolding eq using nlo False by simp
      finally show ?thesis .
    qed
  qed
qed


text \<open>
  \<open>idx b c\<close> is the list of the indices of \<open>c\<close> in \<open>b\<close>; \<open>complete_index b b2j\<close>
  says that \<open>b2j\<close> holds that list for every element, as \<^verbatim>\<open>__chain_b\<close> builds it
  when it purges nothing.
\<close>

definition idx :: "'a list \<Rightarrow> 'a \<Rightarrow> nat list" where
  "idx b c = filter (\<lambda>j. b ! j = c) [0..<length b]"

definition complete_index :: "string \<Rightarrow> (char \<rightharpoonup> nat list) \<Rightarrow> bool" where
  "complete_index b b2j = (\<forall>c. (case b2j c of None \<Rightarrow> [] | Some js \<Rightarrow> js) = idx b c)"

text \<open>The row of the dynamic program for \<open>i\<close>, and the row before it.\<close>

definition row_of ::
  "'a list \<Rightarrow> 'a list \<Rightarrow> nat \<Rightarrow> nat \<Rightarrow> nat \<Rightarrow> nat \<Rightarrow> (int \<rightharpoonup> nat)" where
  "row_of a b alo blo bhi i =
     (\<lambda>x. if int blo \<le> x \<and> x < int bhi \<and> a ! i = b ! nat x
          then Some (suf_len a b alo blo i (nat x)) else None)"

definition prev_row ::
  "'a list \<Rightarrow> 'a list \<Rightarrow> nat \<Rightarrow> nat \<Rightarrow> nat \<Rightarrow> nat \<Rightarrow> (int \<rightharpoonup> nat)" where
  "prev_row a b alo blo bhi i = (if i = alo then Map.empty else row_of a b alo blo bhi (i - 1))"

definition cols :: "'a list \<Rightarrow> 'a list \<Rightarrow> nat \<Rightarrow> nat \<Rightarrow> nat \<Rightarrow> nat list" where
  "cols a b blo bhi i = filter (\<lambda>j. blo \<le> j \<and> j < bhi) (idx b (a ! i))"

definition sstep ::
  "'a list \<Rightarrow> 'a list \<Rightarrow> nat \<Rightarrow> nat \<Rightarrow> nat \<Rightarrow> nat \<Rightarrow> nat \<times> nat \<times> nat \<Rightarrow> nat \<times> nat \<times> nat" where
  "sstep a b alo blo i j best =
     (if snd (snd best) < suf_len a b alo blo i j
      then (i + 1 - suf_len a b alo blo i j, j + 1 - suf_len a b alo blo i j,
            suf_len a b alo blo i j)
      else best)"

lemma sorted_idx: "sorted_wrt (<) (idx b c)"
  unfolding idx_def by (intro sorted_wrt_filter) (simp add: sorted_wrt_upt)

lemma set_idx: "set (idx b c) = {j. j < length b \<and> b ! j = c}"
  by (auto simp: idx_def)

lemma set_cols:
  "bhi \<le> length b \<Longrightarrow> set (cols a b blo bhi i) = {j. blo \<le> j \<and> j < bhi \<and> b ! j = a ! i}"
  by (auto simp: cols_def set_idx)

lemma row_of_int:
  "row_of a b alo blo bhi i (int j)
     = (if blo \<le> j \<and> j < bhi \<and> a ! i = b ! j
        then Some (suf_len a b alo blo i j) else None)"
  by (simp add: row_of_def)

lemma prev_len_suf_len:
  assumes "alo \<le> i" "blo \<le> j" "j < bhi" "a ! i = b ! j"
  shows "prev_len (prev_row a b alo blo bhi i) j = suf_len a b alo blo i j"
proof (cases "alo < i \<and> blo < j")
  case True
  then have x: "int j - 1 = int (j - 1)" by auto
  have st: "suf_len a b alo blo i j = Suc (suf_len a b alo blo (i - 1) (j - 1))"
    using suf_len_step [OF assms(1,2), of a b] True assms(4) by simp
  have z: "suf_len a b alo blo (i - 1) (j - 1) = 0" if "a ! (i - 1) \<noteq> b ! (j - 1)"
  proof -
    have "alo \<le> i - 1" "blo \<le> j - 1" using True by auto
    from suf_len_step [OF this, of a b] that show ?thesis by simp
  qed
  have pv: "prev_row a b alo blo bhi i (int j - 1)
              = (if a ! (i - 1) = b ! (j - 1)
                 then Some (suf_len a b alo blo (i - 1) (j - 1)) else None)"
  proof -
    have "prev_row a b alo blo bhi i (int j - 1) = row_of a b alo blo bhi (i - 1) (int (j - 1))"
      using True by (simp only: x prev_row_def) simp
    also have "\<dots> = (if blo \<le> j - 1 \<and> j - 1 < bhi \<and> a ! (i - 1) = b ! (j - 1)
                 then Some (suf_len a b alo blo (i - 1) (j - 1)) else None)"
      by (rule row_of_int)
    also have "\<dots> = (if a ! (i - 1) = b ! (j - 1)
                 then Some (suf_len a b alo blo (i - 1) (j - 1)) else None)"
      using True assms(3) by auto
    finally show ?thesis .
  qed
  show ?thesis
    unfolding prev_len_def pv st using z by auto
next
  case False
  then have "i = alo \<or> j = blo" using assms by auto
  then have "(case prev_row a b alo blo bhi i (int j - 1) of None \<Rightarrow> 0 | Some v \<Rightarrow> v) = 0"
    by (auto simp: prev_row_def row_of_def)
  moreover have "suf_len a b alo blo i j = Suc 0"
    using suf_len_step [OF assms(1,2), of a b] False assms(4) by simp
  ultimately show ?thesis
    unfolding prev_len_def by simp
qed

lemma row_map_row_of:
  assumes "alo \<le> i" "bhi \<le> length b"
  shows "row_map (prev_row a b alo blo bhi i) blo bhi (idx b (a ! i)) Map.empty
           = row_of a b alo blo bhi i"
proof
  fix x :: int
  have h: "prev_len (prev_row a b alo blo bhi i) j = suf_len a b alo blo i j"
    if "blo \<le> j" "j < bhi" "a ! i = b ! j" for j
    using prev_len_suf_len [OF assms(1) that] .
  show "row_map (prev_row a b alo blo bhi i) blo bhi (idx b (a ! i)) Map.empty x
           = row_of a b alo blo bhi i x"
  proof (cases "int blo \<le> x \<and> x < int bhi \<and> a ! i = b ! nat x")
    case True
    then have "nat x \<in> set (idx b (a ! i))" "blo \<le> nat x" "nat x < bhi" "x = int (nat x)"
      using assms(2) by (auto simp: set_idx)
    then have e: "\<exists>j\<in>set (idx b (a ! i)). blo \<le> j \<and> j < bhi \<and> x = int j" by blast
    have "prev_len (prev_row a b alo blo bhi i) (nat x) = suf_len a b alo blo i (nat x)"
      using True by (intro h) auto
    then show ?thesis
      unfolding row_map_def row_of_def if_P [OF e] if_P [OF True] by simp
  next
    case False
    then have e: "\<not> (\<exists>j\<in>set (idx b (a ! i)). blo \<le> j \<and> j < bhi \<and> x = int j)"
      by (auto simp: set_idx)
    show ?thesis
      unfolding row_map_def row_of_def if_not_P [OF e] if_not_P [OF False] by simp
  qed
qed

lemma fold_row_step:
  assumes "alo \<le> i" "bhi \<le> length b"
  shows "fold (row_step (prev_row a b alo blo bhi i) i) (cols a b blo bhi i) best
           = fold (sstep a b alo blo i) (cols a b blo bhi i) best"
proof (rule fold_cong [OF refl refl])
  fix j assume "j \<in> set (cols a b blo bhi i)"
  then have "blo \<le> j" "j < bhi" "a ! i = b ! j"
    using assms(2) by (auto simp: set_cols)
  from prev_len_suf_len [OF assms(1) this]
  show "row_step (prev_row a b alo blo bhi i) i j = sstep a b alo blo i j"
    by (simp add: row_step_def sstep_def fun_eq_iff)
qed

lemma flm_rows_char:
  assumes "complete_index b b2j" "alo \<le> i0" "bhi \<le> length b"
  shows "flm_rows a b2j blo bhi [i0..<ahi] (prev_row a b alo blo bhi i0) best
           = fold (\<lambda>i. fold (sstep a b alo blo i) (cols a b blo bhi i)) [i0..<ahi] best"
  using assms(2)
proof (induction "ahi - i0" arbitrary: i0 best)
  case 0
  then show ?case by simp
next
  case (Suc n)
  then have lt: "i0 < ahi" by simp
  have js: "(case b2j (a ! i0) of None \<Rightarrow> [] | Some js \<Rightarrow> js) = idx b (a ! i0)"
    using assms(1) by (simp add: complete_index_def)
  have row: "flm_row (prev_row a b alo blo bhi i0) i0 blo bhi (idx b (a ! i0)) Map.empty best
          = (prev_row a b alo blo bhi (Suc i0),
             fold (sstep a b alo blo i0) (cols a b blo bhi i0) best)"
  proof -
    have "sorted (idx b (a ! i0))"
      using sorted_idx [of b "a ! i0"] by (rule strict_sorted_imp_sorted)
    from flm_row_char [OF this]
    show ?thesis
      using Suc.prems row_map_row_of [OF Suc.prems assms(3), of a blo]
        fold_row_step [OF Suc.prems assms(3), of a blo best]
      by (simp add: cols_def [symmetric] prev_row_def)
  qed
  have "flm_rows a b2j blo bhi [Suc i0..<ahi] (prev_row a b alo blo bhi (Suc i0)) best'
          = fold (\<lambda>i. fold (sstep a b alo blo i) (cols a b blo bhi i)) [Suc i0..<ahi] best'"
    for best'
    using Suc.hyps(2) Suc.prems by (intro Suc.hyps(1)) auto
  then show ?case
    using lt by (simp add: upt_conv_Cons js row)
qed


text \<open>
  The cells \<open>(i, j)\<close> of the region with \<open>a ! i = b ! j\<close>, in the order in which
  the two loops visit them.
\<close>

definition cells ::
  "'a list \<Rightarrow> 'a list \<Rightarrow> nat \<Rightarrow> nat \<Rightarrow> nat \<Rightarrow> nat \<Rightarrow> (nat \<times> nat) list" where
  "cells a b alo ahi blo bhi =
     concat (map (\<lambda>i. map (Pair i) (cols a b blo bhi i)) [alo..<ahi])"

lemma fold_cells:
  "fold (\<lambda>i. fold (sstep a b alo blo i) (cols a b blo bhi i)) [alo..<ahi] best
     = fold (\<lambda>(i, j). sstep a b alo blo i j) (cells a b alo ahi blo bhi) best"
proof -
  have "fold (\<lambda>i. fold (g i) (cs i)) is best
          = fold (\<lambda>(i, j). g i j) (concat (map (\<lambda>i. map (Pair i) (cs i)) is)) best"
    for g :: "nat \<Rightarrow> nat \<Rightarrow> 'b \<Rightarrow> 'b" and cs :: "nat \<Rightarrow> nat list" and "is" best
    by (induction "is" arbitrary: best) (simp_all add: fold_map comp_def)
  then show ?thesis by (simp add: cells_def)
qed

lemma set_cells:
  assumes "bhi \<le> length b"
  shows "set (cells a b alo ahi blo bhi)
           = {(i, j). alo \<le> i \<and> i < ahi \<and> blo \<le> j \<and> j < bhi \<and> a ! i = b ! j}"
  using assms by (auto simp: cells_def set_cols)

lemma sorted_cells: "sorted_wrt (<) (cells a b alo ahi blo bhi)"
proof -
  have "sorted_wrt (<) is \<Longrightarrow>
        sorted_wrt (<) (concat (map (\<lambda>i. map (Pair i) (cols a b blo bhi i)) is))"
    for "is" :: "nat list"
  proof (induction "is")
    case Nil
    then show ?case by simp
  next
    case (Cons x xs)
    have "sorted_wrt (<) (cols a b blo bhi x)"
      unfolding cols_def by (intro sorted_wrt_filter sorted_idx)
    then have "sorted_wrt (<) (map (Pair x) (cols a b blo bhi x))"
      by (simp add: sorted_wrt_map less_prod_def)
    moreover have "\<forall>p\<in>set (map (Pair x) (cols a b blo bhi x)).
        \<forall>q\<in>set (concat (map (\<lambda>i. map (Pair i) (cols a b blo bhi i)) xs)). p < q"
      using Cons.prems by (auto simp: less_prod_def)
    ultimately show ?case
      using Cons by (simp add: sorted_wrt_append)
  qed
  then show ?thesis by (simp add: cells_def sorted_wrt_upt)
qed

lemma fold_sstep_char:
  assumes "\<forall>(i, j)\<in>set xs. 0 < suf_len a b alo blo i j"
  shows "(xs = [] \<and> fold (\<lambda>(i, j). sstep a b alo blo i j) xs (alo, blo, 0) = (alo, blo, 0))
       \<or> (\<exists>n<length xs.
            fold (\<lambda>(i, j). sstep a b alo blo i j) xs (alo, blo, 0)
              = (fst (xs ! n) + 1 - suf_len a b alo blo (fst (xs ! n)) (snd (xs ! n)),
                 snd (xs ! n) + 1 - suf_len a b alo blo (fst (xs ! n)) (snd (xs ! n)),
                 suf_len a b alo blo (fst (xs ! n)) (snd (xs ! n)))
            \<and> (\<forall>x\<in>set xs. suf_len a b alo blo (fst x) (snd x)
                              \<le> suf_len a b alo blo (fst (xs ! n)) (snd (xs ! n)))
            \<and> (\<forall>m<n. suf_len a b alo blo (fst (xs ! m)) (snd (xs ! m))
                         < suf_len a b alo blo (fst (xs ! n)) (snd (xs ! n))))"
  using assms
proof (induction xs rule: rev_induct)
  case Nil
  then show ?case by simp
next
  case (snoc c xs)
  obtain i j where c: "c = (i, j)" by (cases c) auto
  let ?S = "\<lambda>x. suf_len a b alo blo (fst x) (snd x)"
  let ?f = "fold (\<lambda>(i, j). sstep a b alo blo i j) xs (alo, blo, 0)"
  have pos: "0 < ?S c" using snoc.prems by (auto simp: c)
  have step: "fold (\<lambda>(i, j). sstep a b alo blo i j) (xs @ [c]) (alo, blo, 0)
                = sstep a b alo blo i j ?f"
    by (simp add: c)
  from snoc.IH snoc.prems consider
    (empty) "xs = []" "?f = (alo, blo, 0)"
  | (some) n where "n < length xs" "?f = (fst (xs ! n) + 1 - ?S (xs ! n),
                 snd (xs ! n) + 1 - ?S (xs ! n), ?S (xs ! n))"
      "\<forall>x\<in>set xs. ?S x \<le> ?S (xs ! n)" "\<forall>m<n. ?S (xs ! m) < ?S (xs ! n)"
    by auto
  then show ?case
  proof cases
    case empty
    have "sstep a b alo blo i j (alo, blo, 0) = (i + 1 - ?S c, j + 1 - ?S c, ?S c)"
      using pos by (simp add: sstep_def c)
    then show ?thesis
      unfolding step empty(2) using empty(1) by (auto simp: c)
  next
    case some
    show ?thesis
    proof (cases "?S (xs ! n) < ?S c")
      case True
      have "sstep a b alo blo i j ?f = (i + 1 - ?S c, j + 1 - ?S c, ?S c)"
        unfolding some(2) using True by (simp add: sstep_def c)
      moreover have "\<forall>x\<in>set (xs @ [c]). ?S x \<le> ?S c"
        using some(3) True by fastforce
      moreover have "\<forall>m<length xs. ?S ((xs @ [c]) ! m) < ?S c"
      proof (intro allI impI)
        fix m assume m: "m < length xs"
        then have "?S (xs ! m) \<le> ?S (xs ! n)" using some(3) by simp
        then show "?S ((xs @ [c]) ! m) < ?S c" using True m by (simp add: nth_append)
      qed
      ultimately show ?thesis
        unfolding step
        by (intro disjI2 exI [of _ "length xs"]) (simp add: c)
    next
      case False
      have "sstep a b alo blo i j ?f = ?f"
        unfolding some(2) using False by (simp add: sstep_def c)
      moreover have "\<forall>x\<in>set (xs @ [c]). ?S x \<le> ?S (xs ! n)"
        using some(3) False by auto
      ultimately show ?thesis
        unfolding step using some
        by (intro disjI2 exI [of _ n]) (simp add: nth_append)
    qed
  qed
qed


lemma rblock_end_cell:
  assumes "rblock a b alo ahi blo bhi i j k" and "0 < k"
  shows "alo \<le> i + k - 1 \<and> i + k - 1 < ahi \<and> blo \<le> j + k - 1 \<and> j + k - 1 < bhi
         \<and> a ! (i + k - 1) = b ! (j + k - 1)
         \<and> k \<le> suf_len a b alo blo (i + k - 1) (j + k - 1)"
proof -
  from assms have bnd: "alo \<le> i" "i + k \<le> ahi" "blo \<le> j" "j + k \<le> bhi"
    and eq: "\<And>d. d < k \<Longrightarrow> a ! (i + d) = b ! (j + d)"
    by (auto simp: rblock_def)
  have lst: "a ! (i + k - 1) = b ! (j + k - 1)"
    using eq [of "k - 1"] assms(2) by simp
  have bwd: "a ! (i + k - 1 - d) = b ! (j + k - 1 - d)" if "d < k" for d
  proof -
    have "i + k - 1 - d = i + (k - 1 - d)" "j + k - 1 - d = j + (k - 1 - d)"
      using that by auto
    then show ?thesis using eq [of "k - 1 - d"] that by simp
  qed
  have "k \<le> suf_len a b alo blo (i + k - 1) (j + k - 1)"
    using bnd assms(2) bwd by (subst suf_len_ge_iff) auto
  then show ?thesis using bnd assms(2) lst by auto
qed

lemma suf_len_rblock:
  assumes "alo \<le> i" "i < ahi" "blo \<le> j" "j < bhi"
  shows "rblock a b alo ahi blo bhi
           (i + 1 - suf_len a b alo blo i j) (j + 1 - suf_len a b alo blo i j)
           (suf_len a b alo blo i j)"
proof -
  let ?k = "suf_len a b alo blo i j"
  have "?k \<le> ?k" by simp
  then have k: "?k \<le> i + 1 - alo" "?k \<le> j + 1 - blo"
    and eq: "\<And>d. d < ?k \<Longrightarrow> a ! (i - d) = b ! (j - d)"
    using suf_len_ge_iff [OF assms(1,3), of ?k a b] by auto
  have "a ! (i + 1 - ?k + d) = b ! (j + 1 - ?k + d)" if "d < ?k" for d
  proof -
    have "i + 1 - ?k + d = i - (?k - 1 - d)" "j + 1 - ?k + d = j - (?k - 1 - d)"
      using that k by auto
    then show ?thesis using eq [of "?k - 1 - d"] that by simp
  qed
  then show ?thesis
    using k assms unfolding rblock_def by auto
qed

lemma fold_cells_first_longest:
  assumes "bhi \<le> length b"
  shows "first_longest a b alo ahi blo bhi
           (fold (\<lambda>(i, j). sstep a b alo blo i j) (cells a b alo ahi blo bhi) (alo, blo, 0))"
proof -
  let ?cs = "cells a b alo ahi blo bhi"
  let ?S = "\<lambda>x. suf_len a b alo blo (fst x) (snd x)"
  have mem: "(i, j) \<in> set ?cs \<longleftrightarrow> alo \<le> i \<and> i < ahi \<and> blo \<le> j \<and> j < bhi \<and> a ! i = b ! j"
    for i j
    by (simp add: set_cells [OF assms])
  have pos: "\<forall>(i, j)\<in>set ?cs. 0 < suf_len a b alo blo i j"
  proof (intro ballI, clarify)
    fix i j assume "(i, j) \<in> set ?cs"
    then have "alo \<le> i" "blo \<le> j" "a ! i = b ! j" by (auto simp: mem)
    then show "0 < suf_len a b alo blo i j" by (subst suf_len_step) auto
  qed
  from fold_sstep_char [OF pos] consider
    (empty) "?cs = []"
      "fold (\<lambda>(i, j). sstep a b alo blo i j) ?cs (alo, blo, 0) = (alo, blo, 0)"
  | (some) n where "n < length ?cs"
      "fold (\<lambda>(i, j). sstep a b alo blo i j) ?cs (alo, blo, 0)
         = (fst (?cs ! n) + 1 - ?S (?cs ! n), snd (?cs ! n) + 1 - ?S (?cs ! n), ?S (?cs ! n))"
      "\<forall>x\<in>set ?cs. ?S x \<le> ?S (?cs ! n)" "\<forall>m<n. ?S (?cs ! m) < ?S (?cs ! n)"
    by blast
  then show ?thesis
  proof cases
    case empty
    have "a ! i' \<noteq> b ! j'" if "alo \<le> i'" "i' < ahi" "blo \<le> j'" "j' < bhi" for i' j'
    proof
      assume "a ! i' = b ! j'"
      with that have "(i', j') \<in> set ?cs" by (simp add: mem)
      with empty(1) show False by simp
    qed
    then show ?thesis
      unfolding empty(2) first_longest_def by auto
  next
    case some
    obtain i j where c: "?cs ! n = (i, j)" by (cases "?cs ! n") auto
    let ?K = "suf_len a b alo blo i j"
    have cin: "(i, j) \<in> set ?cs" using some(1) c by (metis nth_mem)
    then have reg: "alo \<le> i" "i < ahi" "blo \<le> j" "j < bhi" "a ! i = b ! j"
      by (auto simp: mem)
    have K: "0 < ?K" using pos cin by auto
    have blk: "rblock a b alo ahi blo bhi (i + 1 - ?K) (j + 1 - ?K) ?K"
      by (rule suf_len_rblock [OF reg(1-4)])
    have Kle: "?K \<le> i + 1" "?K \<le> j + 1"
      using suf_len_ge_iff [OF reg(1,3), of ?K a b] by auto
    have mx: "k' < ?K \<or> (k' = ?K \<and> (i + 1 - ?K, j + 1 - ?K) \<le> (i', j'))"
      if b: "rblock a b alo ahi blo bhi i' j' k'" for i' j' k'
    proof (cases "k' = 0")
      case True
      with K show ?thesis by simp
    next
      case False
      then have k': "0 < k'" by simp
      from rblock_end_cell [OF b k'] have
        e: "(i' + k' - 1, j' + k' - 1) \<in> set ?cs"
        and le: "k' \<le> suf_len a b alo blo (i' + k' - 1) (j' + k' - 1)"
        by (auto simp: mem)
      from some(3) e have le2: "suf_len a b alo blo (i' + k' - 1) (j' + k' - 1) \<le> ?K"
        unfolding c by fastforce
      have "(i + 1 - ?K, j + 1 - ?K) \<le> (i', j')" if eqK: "k' = ?K"
      proof -
        from e obtain m where m: "m < length ?cs" "?cs ! m = (i' + k' - 1, j' + k' - 1)"
          unfolding in_set_conv_nth by blast
        have "?S (?cs ! m) = ?S (?cs ! n)"
          using le le2 eqK unfolding m c by simp
        with some(4) have "n \<le> m" by (metis linorder_not_less less_irrefl)
        have "(i, j) \<le> (i' + k' - 1, j' + k' - 1)"
        proof (cases "n = m")
          case True
          with m c show ?thesis by simp
        next
          case False
          with \<open>n \<le> m\<close> have "n < m" by simp
          from sorted_wrt_nth_less [OF sorted_cells this m(1)] m(2) c
          have "(i, j) < (i' + k' - 1, j' + k' - 1)" by simp
          then show ?thesis by (rule less_imp_le)
        qed
        then show ?thesis
          using Kle k' unfolding eqK less_eq_prod_def by auto
      qed
      with le le2 show ?thesis by auto
    qed
    show ?thesis
      unfolding some(2) c first_longest_def using K blk mx by simp
  qed
qed

lemma flm_rows_first_longest:
  assumes "complete_index b b2j" "bhi \<le> length b"
  shows "first_longest a b alo ahi blo bhi
           (flm_rows a b2j blo bhi [alo..<ahi] Map.empty (alo, blo, 0))"
proof -
  have "flm_rows a b2j blo bhi [alo..<ahi] Map.empty (alo, blo, 0)
          = fold (\<lambda>(i, j). sstep a b alo blo i j) (cells a b alo ahi blo bhi) (alo, blo, 0)"
    using flm_rows_char [OF assms(1) order_refl assms(2),
        where a = a and alo = alo and blo = blo and ahi = ahi and best = "(alo, blo, 0)"]
    by (simp add: prev_row_def fold_cells)
  then show ?thesis
    using fold_cells_first_longest [OF assms(2)] by simp
qed

lemma extend_left_first_longest:
  assumes "first_longest a b alo ahi blo bhi r"
  shows "extend_left a b alo blo r = r"
proof -
  obtain i j k where r: "r = (i, j, k)" by (cases r) auto
  have "\<not> (alo < i \<and> blo < j \<and> a ! (i - 1) = b ! (j - 1))"
  proof
    assume c: "alo < i \<and> blo < j \<and> a ! (i - 1) = b ! (j - 1)"
    with assms r have k: "0 < k" and blk: "rblock a b alo ahi blo bhi i j k"
      and mx: "\<And>i' j' k'. rblock a b alo ahi blo bhi i' j' k'
                  \<Longrightarrow> k' < k \<or> (k' = k \<and> (i, j) \<le> (i', j'))"
      by (auto simp: first_longest_def)
    have "a ! (i - 1 + d) = b ! (j - 1 + d)" if "d < Suc k" for d
    proof (cases d)
      case 0
      with c show ?thesis by simp
    next
      case (Suc d')
      with that blk c show ?thesis by (auto simp: rblock_def)
    qed
    then have "rblock a b alo ahi blo bhi (i - 1) (j - 1) (Suc k)"
      using blk c by (auto simp: rblock_def)
    from mx [OF this] show False by simp
  qed
  then show ?thesis
    unfolding r by (subst extend_left.simps) (simp only: if_False)
qed

lemma extend_right_first_longest:
  assumes "first_longest a b alo ahi blo bhi r"
  shows "extend_right a b ahi bhi r = r"
proof -
  obtain i j k where r: "r = (i, j, k)" by (cases r) auto
  have "\<not> (i + k < ahi \<and> j + k < bhi \<and> a ! (i + k) = b ! (j + k))"
  proof
    assume c: "i + k < ahi \<and> j + k < bhi \<and> a ! (i + k) = b ! (j + k)"
    show False
    proof (cases "k = 0")
      case True
      with assms r c show False by (auto simp: first_longest_def rblock_def)
    next
      case False
      with assms r have blk: "rblock a b alo ahi blo bhi i j k"
        and mx: "\<And>i' j' k'. rblock a b alo ahi blo bhi i' j' k'
                  \<Longrightarrow> k' < k \<or> (k' = k \<and> (i, j) \<le> (i', j'))"
        by (auto simp: first_longest_def)
      have "a ! (i + d) = b ! (j + d)" if "d < Suc k" for d
        using that blk c by (cases "d = k") (auto simp: rblock_def)
      then have "rblock a b alo ahi blo bhi i j (Suc k)"
        using blk c by (auto simp: rblock_def)
      from mx [OF this] show False by simp
    qed
  qed
  then show ?thesis
    unfolding r by (subst extend_right.simps) (simp only: if_False)
qed

lemma find_longest_match_first_longest:
  assumes "complete_index b b2j" "bhi \<le> length b"
  shows "first_longest a b alo ahi blo bhi (find_longest_match a b b2j alo ahi blo bhi)"
  using flm_rows_first_longest [OF assms, where a = a and alo = alo and ahi = ahi and blo = blo]
  by (simp add: find_longest_match_def extend_left_first_longest extend_right_first_longest)


section \<open>Regions and slices\<close>

text \<open>\<open>slice a lo hi\<close> is \<^verbatim>\<open>a[lo:hi]\<close>.\<close>

definition slice :: "'a list \<Rightarrow> nat \<Rightarrow> nat \<Rightarrow> 'a list" where
  "slice a lo hi = take (hi - lo) (drop lo a)"

lemma length_slice: "hi \<le> length a \<Longrightarrow> length (slice a lo hi) = hi - lo"
  by (auto simp: slice_def)

lemma nth_slice: "hi \<le> length a \<Longrightarrow> lo + n < hi \<Longrightarrow> slice a lo hi ! n = a ! (lo + n)"
  by (auto simp: slice_def)

lemma slice_whole: "slice a 0 (length a) = a"
  by (simp add: slice_def)

lemma take_slice: "n \<le> hi - lo \<Longrightarrow> take n (slice a lo hi) = slice a lo (lo + n)"
  by (simp add: slice_def min_def)

lemma drop_slice: "drop n (slice a lo hi) = slice a (lo + n) hi"
  by (simp add: slice_def drop_take add.commute)

lemma rblock_slice:
  assumes "alo \<le> ahi" "ahi \<le> length a" "blo \<le> bhi" "bhi \<le> length b"
  shows "rblock (slice a alo ahi) (slice b blo bhi) 0 (ahi - alo) 0 (bhi - blo) i j k
           \<longleftrightarrow> rblock a b alo ahi blo bhi (alo + i) (blo + j) k
               \<and> i + k \<le> ahi - alo \<and> j + k \<le> bhi - blo"
proof (cases "i + k \<le> ahi - alo \<and> j + k \<le> bhi - blo")
  case True
  have "slice a alo ahi ! (i + d) = a ! (alo + i + d)"
       "slice b blo bhi ! (j + d) = b ! (blo + j + d)" if "d < k" for d
    using that True assms by (auto simp: nth_slice add.assoc)
  then show ?thesis
    using True assms(1,3) unfolding rblock_def by auto
next
  case False
  then show ?thesis unfolding rblock_def by auto
qed

lemma first_longest_slice:
  assumes "alo \<le> ahi" "ahi \<le> length a" "blo \<le> bhi" "bhi \<le> length b"
    and "first_longest (slice a alo ahi) (slice b blo bhi) 0 (ahi - alo) 0 (bhi - blo) (i, j, k)"
  shows "first_longest a b alo ahi blo bhi (alo + i, blo + j, k)"
proof (cases "k = 0")
  case True
  with assms(5) have z: "i = 0" "j = 0"
    and nm: "\<And>i' j'. i' < ahi - alo \<Longrightarrow> j' < bhi - blo
               \<Longrightarrow> slice a alo ahi ! i' \<noteq> slice b blo bhi ! j'"
    by (auto simp: first_longest_def)
  have "a ! i' \<noteq> b ! j'" if "alo \<le> i'" "i' < ahi" "blo \<le> j'" "j' < bhi" for i' j'
    using nm [of "i' - alo" "j' - blo"] that assms(2,4) by (simp add: nth_slice)
  then show ?thesis using True z by (simp add: first_longest_def)
next
  case False
  with assms(5) have
    blk: "rblock (slice a alo ahi) (slice b blo bhi) 0 (ahi - alo) 0 (bhi - blo) i j k"
    and mx: "\<And>i' j' k'.
        rblock (slice a alo ahi) (slice b blo bhi) 0 (ahi - alo) 0 (bhi - blo) i' j' k'
          \<Longrightarrow> k' < k \<or> (k' = k \<and> (i, j) \<le> (i', j'))"
    by (auto simp: first_longest_def)
  have b1: "rblock a b alo ahi blo bhi (alo + i) (blo + j) k"
    using blk rblock_slice [OF assms(1-4)] by blast
  have "k' < k \<or> (k' = k \<and> (alo + i, blo + j) \<le> (i', j'))"
    if b: "rblock a b alo ahi blo bhi i' j' k'" for i' j' k'
  proof -
    from b have bnd: "alo \<le> i'" "i' + k' \<le> ahi" "blo \<le> j'" "j' + k' \<le> bhi"
      by (auto simp: rblock_def)
    then have "rblock a b alo ahi blo bhi (alo + (i' - alo)) (blo + (j' - blo)) k'"
      using b by simp
    then have "rblock (slice a alo ahi) (slice b blo bhi) 0 (ahi - alo) 0 (bhi - blo)
                 (i' - alo) (j' - blo) k'"
      using bnd rblock_slice [OF assms(1-4), of "i' - alo" "j' - blo" k'] by auto
    from mx [OF this] show ?thesis
      using bnd unfolding less_eq_prod_def by auto
  qed
  with False b1 show ?thesis by (simp add: first_longest_def)
qed

lemma find_longest_match_slice:
  assumes "complete_index b b2j" "alo \<le> ahi" "ahi \<le> length a" "blo \<le> bhi" "bhi \<le> length b"
    and "longest_block (slice a alo ahi) (slice b blo bhi) = (i, j, k)"
  shows "find_longest_match a b b2j alo ahi blo bhi = (alo + i, blo + j, k)"
proof -
  have "first_longest (slice a alo ahi) (slice b blo bhi) 0 (ahi - alo) 0 (bhi - blo) (i, j, k)"
    using longest_block_first_longest [of "slice a alo ahi" "slice b blo bhi"] assms(3,5,6)
    by (simp add: length_slice)
  from first_longest_slice [OF assms(2-5) this]
    find_longest_match_first_longest [OF assms(1,5)]
  show ?thesis by (rule first_longest_unique [symmetric])
qed

section \<open>The matching blocks and the specification\<close>

lemma longest_block_Nil: "longest_block [] b = (0, 0, 0)" "longest_block a [] = (0, 0, 0)"
  by (simp_all add: longest_block_def lcb_len_def Let_def)

lemma ro_matches_Nil: "ro_matches [] b = 0" "ro_matches a [] = 0"
  by (subst ro_matches.simps, simp add: longest_block_Nil)+

lemma gmb_loop_sum:
  assumes "complete_index b b2j"
    and "\<forall>(alo, ahi, blo, bhi)\<in>set queue.
           alo \<le> ahi \<and> ahi \<le> length a \<and> blo \<le> bhi \<and> bhi \<le> length b"
  shows "sum_list (map (\<lambda>(i, j, k). k) (gmb_loop a b b2j queue mbs))
           = sum_list (map (\<lambda>(i, j, k). k) mbs)
             + sum_list (map (\<lambda>(alo, ahi, blo, bhi).
                 ro_matches (slice a alo ahi) (slice b blo bhi)) queue)"
  using assms
proof (induction a b b2j queue mbs rule: gmb_loop.induct)
  case (1 a b b2j mbs)
  show ?case by (simp add: gmb_loop.simps)
next
  case (2 a b b2j alo ahi blo bhi queue mbs)
  have reg: "alo \<le> ahi" "ahi \<le> length a" "blo \<le> bhi" "bhi \<le> length b"
    and rest: "\<forall>(alo, ahi, blo, bhi)\<in>set queue.
           alo \<le> ahi \<and> ahi \<le> length a \<and> blo \<le> bhi \<and> bhi \<le> length b"
    using "2.prems"(2) by auto
  let ?sa = "slice a alo ahi" and ?sb = "slice b blo bhi"
  obtain i j k where lb: "longest_block ?sa ?sb = (i, j, k)"
    by (cases "longest_block ?sa ?sb") auto
  have flm: "find_longest_match a b b2j alo ahi blo bhi = (alo + i, blo + j, k)"
    by (rule find_longest_match_slice [OF "2.prems"(1) reg lb])
  show ?case
  proof (cases "k = 0")
    case True
    have "gmb_loop a b b2j ((alo, ahi, blo, bhi) # queue) mbs = gmb_loop a b b2j queue mbs"
      by (subst gmb_loop.simps) (simp add: flm True)
    moreover have "ro_matches ?sa ?sb = 0"
      by (subst ro_matches.simps) (simp add: lb True)
    moreover have "sum_list (map (\<lambda>(i, j, k). k) (gmb_loop a b b2j queue mbs))
           = sum_list (map (\<lambda>(i, j, k). k) mbs)
             + sum_list (map (\<lambda>(alo, ahi, blo, bhi).
                 ro_matches (slice a alo ahi) (slice b blo bhi)) queue)"
      using True by (intro "2.IH"(2) [OF flm [symmetric] refl] "2.prems"(1) rest) simp
    ultimately show ?thesis by simp
  next
    case False
    from longest_block_bounds [OF lb False]
    have bnd: "i + k \<le> ahi - alo" "j + k \<le> bhi - blo"
      using reg by (simp_all add: length_slice)
    let ?right = "if alo + i + k < ahi \<and> blo + j + k < bhi
                  then [(alo + i + k, ahi, blo + j + k, bhi)] else []"
    let ?left = "if alo < alo + i \<and> blo < blo + j then [(alo, alo + i, blo, blo + j)] else []"
    have step: "gmb_loop a b b2j ((alo, ahi, blo, bhi) # queue) mbs
                  = gmb_loop a b b2j (?right @ ?left @ queue) (mbs @ [(alo + i, blo + j, k)])"
      by (subst gmb_loop.simps) (simp add: flm False)
    have valid: "\<forall>(alo, ahi, blo, bhi)\<in>set (?right @ ?left @ queue).
           alo \<le> ahi \<and> ahi \<le> length a \<and> blo \<le> bhi \<and> bhi \<le> length b"
      using rest reg bnd by auto
    have ih: "sum_list (map (\<lambda>(i, j, k). k)
                 (gmb_loop a b b2j (?right @ ?left @ queue) (mbs @ [(alo + i, blo + j, k)])))
           = sum_list (map (\<lambda>(i, j, k). k) (mbs @ [(alo + i, blo + j, k)]))
             + sum_list (map (\<lambda>(alo, ahi, blo, bhi).
                 ro_matches (slice a alo ahi) (slice b blo bhi)) (?right @ ?left @ queue))"
      using False
      by (intro "2.IH"(1) [OF flm [symmetric] refl] "2.prems"(1) valid) simp
    have l: "sum_list (map (\<lambda>(alo, ahi, blo, bhi).
                 ro_matches (slice a alo ahi) (slice b blo bhi)) ?left)
             = ro_matches (take i ?sa) (take j ?sb)"
    proof (cases "0 < i \<and> 0 < j")
      case True
      then show ?thesis using bnd by (simp add: take_slice)
    next
      case False
      then have "take i ?sa = [] \<or> take j ?sb = []" by auto
      then have "ro_matches (take i ?sa) (take j ?sb) = 0"
        by (auto simp: ro_matches_Nil)
      with False show ?thesis by auto
    qed
    have r: "sum_list (map (\<lambda>(alo, ahi, blo, bhi).
                 ro_matches (slice a alo ahi) (slice b blo bhi)) ?right)
             = ro_matches (drop (i + k) ?sa) (drop (j + k) ?sb)"
    proof (cases "alo + i + k < ahi \<and> blo + j + k < bhi")
      case True
      then show ?thesis by (simp add: drop_slice add.assoc)
    next
      case False
      then have "drop (i + k) ?sa = [] \<or> drop (j + k) ?sb = []"
        using reg by (auto simp: length_slice)
      then have "ro_matches (drop (i + k) ?sa) (drop (j + k) ?sb) = 0"
        by (auto simp: ro_matches_Nil)
      with False show ?thesis by auto
    qed
    have ro: "ro_matches ?sa ?sb
                = k + ro_matches (take i ?sa) (take j ?sb)
                  + ro_matches (drop (i + k) ?sa) (drop (j + k) ?sb)"
      by (subst ro_matches.simps) (simp add: lb False)
    have q: "sum_list (map (\<lambda>(alo, ahi, blo, bhi).
                 ro_matches (slice a alo ahi) (slice b blo bhi)) (?right @ ?left @ queue))
             = ro_matches (drop (i + k) ?sa) (drop (j + k) ?sb)
               + ro_matches (take i ?sa) (take j ?sb)
               + sum_list (map (\<lambda>(alo, ahi, blo, bhi).
                   ro_matches (slice a alo ahi) (slice b blo bhi)) queue)"
      unfolding map_append sum_list_append l r by simp
    show ?thesis
      unfolding step ih q using ro by simp
  qed
qed

lemma sum_list_insort_key:
  "sum_list (map f (insort_key g x xs)) = f x + sum_list (map f xs)"
  for f :: "'a \<Rightarrow> nat"
  by (induction xs) auto

lemma sum_list_sort_key:
  "sum_list (map f (sort_key g xs)) = sum_list (map f xs)"
  for f :: "'a \<Rightarrow> nat"
  by (induction xs) (simp_all add: sum_list_insort_key)

lemma collapse_adjacent_sum:
  "sum_list (map (\<lambda>(i, j, k). k) (collapse_adjacent (i1, j1, k1) blocks non_adjacent))
     = sum_list (map (\<lambda>(i, j, k). k) non_adjacent) + k1
       + sum_list (map (\<lambda>(i, j, k). k) blocks)"
  by (induction "(i1, j1, k1)" blocks non_adjacent arbitrary: i1 j1 k1
      rule: collapse_adjacent.induct) auto

subsection \<open>The index built by \<^verbatim>\<open>__chain_b\<close>\<close>

lemma idx_Cons:
  "idx (e # b) c = (if e = c then [0] else []) @ map Suc (idx b c)"
proof -
  have "[0..<Suc (length b)] = 0 # map Suc [0..<length b]"
    by (simp add: upt_conv_Cons map_Suc_upt del: upt_Suc)
  then show ?thesis
    by (simp add: idx_def filter_map comp_def del: upt_Suc)
qed

lemma chain_b_index_char:
  "(case chain_b_index b i m c of None \<Rightarrow> [] | Some js \<Rightarrow> js)
     = (case m c of None \<Rightarrow> [] | Some js \<Rightarrow> js) @ map (\<lambda>j. j + i) (idx b c)"
proof (induction b arbitrary: i m)
  case Nil
  then show ?case by (simp add: idx_def)
next
  case (Cons e b)
  show ?case
    by (simp add: Cons.IH idx_Cons comp_def)
qed

lemma chain_b_complete:
  assumes "length b < 200"
  shows "complete_index b (chain_b b)"
  using assms chain_b_index_char [of b 0 Map.empty]
  by (simp add: complete_index_def chain_b_def)

section \<open>The ratio\<close>

lemma get_matching_blocks_sum:
  assumes "length b < 200"
  shows "sum_list (map (\<lambda>(i, j, k). k) (get_matching_blocks a b)) = ro_matches a b"
proof -
  have "sum_list (map (\<lambda>(i, j, k). k)
           (gmb_loop a b (chain_b b) [(0, length a, 0, length b)] []))
          = ro_matches a b"
    using gmb_loop_sum [OF chain_b_complete [OF assms], of "[(0, length a, 0, length b)]" a "[]"]
    by (simp add: slice_whole)
  then show ?thesis
    by (simp add: get_matching_blocks_def Let_def collapse_adjacent_sum sum_list_sort_key)
qed

section \<open>find_closest_match: the character similarity\<close>

text \<open>
  C2, as the code has it. For a sample whose lower-cased text, the string that the
  matcher receives, has fewer than 200 characters and is no exact match, the ratio
  in the score is \<open>2 * M / T\<close> in float arithmetic, where \<open>M\<close> counts the matched
  characters of the Ratcliff/Obershelp recursion on the longest common block (the
  first one in the query, then in the text, among several of the same length) and
  \<open>T\<close> is the sum of the lengths of the query and of the lower-cased text.
\<close>

theorem ratio_ratcliff_obershelp:
  assumes "length (py_lower (words s)) < 200" and "py_lower (words s) \<noteq> text"
  shows "ratio text (py_lower (words s))
           = fdiv (fmul 2 (py_float (ro_matches text (py_lower (words s)))))
               (py_float (length text + length (py_lower (words s))))"
proof -
  have "length text + length (py_lower (words s)) \<noteq> 0"
    using assms(2) by auto
  with assms(1) show ?thesis
    by (simp add: ratio_def get_matching_blocks_sum calculate_ratio_def)
qed

theorem ratio_ratcliff_obershelp_witness:
  "ratio ''good morning'' (py_lower (words (mk_sample ''u2'' ''Good Night Everyone'')))
     = fdiv (fmul 2 (py_float 8))
         (py_float (length ''good morning'' + length ''good night everyone''))
   \<and> ro_matches ''good morning'' ''good night everyone'' = 8"
proof -
  have l: "py_lower ''Good Night Everyone'' = ''good night everyone''" by code_simp
  have 1: "length (py_lower (words (mk_sample ''u2'' ''Good Night Everyone''))) < 200"
    by (simp add: mk_sample_def l)
  have 2: "py_lower (words (mk_sample ''u2'' ''Good Night Everyone'')) \<noteq> ''good morning''"
    by (simp add: mk_sample_def l)
  have m: "ro_matches ''good morning'' ''good night everyone'' = 8" by code_simp
  from ratio_ratcliff_obershelp [OF 1 2] show ?thesis
    by (simp add: mk_sample_def l m)
qed

text \<open>
  The claim as stated fails for a lower-cased text of 200 characters or more: the
  matcher drops the characters that occur in more than 1 percent of the text (plus
  one) from its index. Here \<open>a\<close> is such a character; the recursion of the specification
  matches it, the code matches nothing.
\<close>

theorem ratio_autojunk_counterexample:
  "ratio ''xa'' (py_lower (words (mk_sample ''u1'' (CHR ''y'' # replicate 200 (CHR ''a'')))))
     = 0
   \<and> ro_matches ''xa''
       (py_lower (words (mk_sample ''u1'' (CHR ''y'' # replicate 200 (CHR ''a''))))) = 1
   \<and> fdiv (fmul 2 (py_float 1)) (py_float (length ''xa'' + 201)) \<noteq> 0"
proof -
  have l: "py_lower (CHR ''y'' # replicate 200 (CHR ''a'')) = CHR ''y'' # replicate 200 (CHR ''a'')"
    by code_simp
  have r: "ratio ''xa'' (CHR ''y'' # replicate 200 (CHR ''a'')) = 0"
    by code_simp
  have m: "ro_matches ''xa'' (CHR ''y'' # replicate 200 (CHR ''a'')) = 1"
    by code_simp
  have f: "fdiv (fmul 2 (py_float 1)) (py_float (length ''xa'' + 201)) \<noteq> 0"
    by code_simp
  show ?thesis
    using r m f by (simp add: mk_sample_def l)
qed

end
